theory Spec2Isabelle
  imports Complex_Main "HOL-Library.Word"
begin

unbundle bit_operations_syntax

section \<open>Sauron: the sharded sparse score table\<close>

text \<open>
  A shallow embedding of \<^verbatim>\<open>src/sauron.c\<close>. The engine is single-threaded here: the
  per-block locks, the striped allocation locks and the memory orders of the atomics
  have no effect on a sequential run and are left out. A context handle is a valid
  pointer: the model's functions take the context itself, so the \<^verbatim>\<open>ctx == NULL\<close>
  guard at the head of every public function is the one branch with no counterpart.
\<close>

subsection \<open>Data model\<close>

text \<open>
  \<^verbatim>\<open>cidr_block_t\<close>: 256 scores of type \<^verbatim>\<open>int16_t\<close>, indexed by the host byte, and
  the number of non-zero scores. A score is a 16-bit word read in two's complement.
\<close>

record cidr_block =
  scores :: "8 word \<Rightarrow> 16 word"
  active_count :: "32 word"

text \<open>
  \<^verbatim>\<open>struct sauron_ctx\<close>. The bitmap is an array of bytes, \<open>block_ptrs\<close> has one slot
  per /16, each empty (\<open>None\<close>, the C \<^verbatim>\<open>NULL\<close>) or an array of 256 block slots.
  Every block is reachable through exactly one slot, so the pointer structure is a
  nested partial map. The field \<open>heap\<close> is the environment of the engine: the
  outcomes of the calls to \<^verbatim>\<open>aligned_alloc\<close> still to come, \<open>heap 0\<close> for the next
  one (\<open>False\<close>: the allocator returns \<^verbatim>\<open>NULL\<close>).
\<close>

record sauron_ctx =
  bitmap :: "nat \<Rightarrow> 8 word"
  block_ptrs :: "16 word \<Rightarrow> (8 word \<Rightarrow> cidr_block option) option"
  score_count :: "64 word"
  block_count :: "64 word"
  memory_used :: "64 word"
  heap :: "nat \<Rightarrow> bool"

datatype status = SAURON_OK | SAURON_ERR_NULL | SAURON_ERR_INVALID | SAURON_ERR_NOMEM | SAURON_ERR_IO

definition SAURON_SCORE_MIN :: int where "SAURON_SCORE_MIN = - 32767"
definition SAURON_SCORE_MAX :: int where "SAURON_SCORE_MAX = 32767"
definition INT16_MIN :: "16 word" where "INT16_MIN = - 32768"
definition INT16_MAX :: "16 word" where "INT16_MAX = 32767"

text \<open>Object sizes on an LP64 platform with spinlocks (\<^verbatim>\<open>sizeof\<close> in the source).\<close>

definition BITMAP_BYTES :: "64 word" where "BITMAP_BYTES = 2097152"
definition sizeof_cidr_block :: "64 word" where "sizeof_cidr_block = 520"
definition sizeof_block_ptr_array :: "64 word" where "sizeof_block_ptr_array = 2048"
definition sizeof_sauron_ctx :: "64 word" where "sizeof_sauron_ctx = 525352"

subsection \<open>Address decomposition and the bitmap filter\<close>

definition ip_to_prefix24 :: "32 word \<Rightarrow> 32 word" where
  "ip_to_prefix24 ip = drop_bit 8 ip"

definition ip_to_prefix16 :: "32 word \<Rightarrow> 16 word" where
  "ip_to_prefix16 ip = ucast (drop_bit 16 ip)"

definition ip_to_block_idx :: "32 word \<Rightarrow> 8 word" where
  "ip_to_block_idx ip = ucast (drop_bit 8 ip AND 0xFF)"

definition ip_to_host_idx :: "32 word \<Rightarrow> 8 word" where
  "ip_to_host_idx ip = ucast (ip AND 0xFF)"

definition prefix24_to_bitmap_pos :: "32 word \<Rightarrow> nat \<times> nat" where
  "prefix24_to_bitmap_pos prefix24 = (unat prefix24 div 8, unat prefix24 mod 8)"

definition bitmap_test :: "sauron_ctx \<Rightarrow> 32 word \<Rightarrow> bool" where
  "bitmap_test ctx prefix24 =
     (case prefix24_to_bitmap_pos prefix24 of (byte_idx, bit_idx) \<Rightarrow>
        let byte_val = bitmap ctx byte_idx
        in drop_bit bit_idx byte_val AND 1 \<noteq> 0)"

definition bitmap_set :: "sauron_ctx \<Rightarrow> 32 word \<Rightarrow> sauron_ctx" where
  "bitmap_set ctx prefix24 =
     (case prefix24_to_bitmap_pos prefix24 of (byte_idx, bit_idx) \<Rightarrow>
        ctx\<lparr>bitmap := (bitmap ctx)(byte_idx := bitmap ctx byte_idx OR push_bit bit_idx 1)\<rparr>)"

definition bitmap_clear :: "sauron_ctx \<Rightarrow> 32 word \<Rightarrow> sauron_ctx" where
  "bitmap_clear ctx prefix24 =
     (case prefix24_to_bitmap_pos prefix24 of (byte_idx, bit_idx) \<Rightarrow>
        ctx\<lparr>bitmap := (bitmap ctx)(byte_idx := bitmap ctx byte_idx AND NOT (push_bit bit_idx 1))\<rparr>)"

subsection \<open>Blocks: allocation and lookup\<close>

text \<open>One call of \<^verbatim>\<open>aligned_alloc\<close>: it takes the next outcome from the environment.\<close>

definition aligned_alloc :: "sauron_ctx \<Rightarrow> bool \<times> sauron_ctx" where
  "aligned_alloc ctx = (heap ctx 0, ctx\<lparr>heap := (\<lambda>n. heap ctx (Suc n))\<rparr>)"

definition alloc_cidr_block :: "sauron_ctx \<Rightarrow> cidr_block option \<times> sauron_ctx" where
  "alloc_cidr_block ctx =
     (case aligned_alloc ctx of (ok, ctx1) \<Rightarrow>
        if \<not> ok then (None, ctx1)
        else (Some \<lparr>scores = (\<lambda>_. 0), active_count = 0\<rparr>,
              ctx1\<lparr>block_count := block_count ctx1 + 1,
                   memory_used := memory_used ctx1 + sizeof_cidr_block\<rparr>))"

definition alloc_block_ptr_array ::
  "sauron_ctx \<Rightarrow> (8 word \<Rightarrow> cidr_block option) option \<times> sauron_ctx" where
  "alloc_block_ptr_array ctx =
     (case aligned_alloc ctx of (ok, ctx1) \<Rightarrow>
        if \<not> ok then (None, ctx1)
        else (Some (\<lambda>_. None),
              ctx1\<lparr>memory_used := memory_used ctx1 + sizeof_block_ptr_array\<rparr>))"

text \<open>
  A write through a block pointer: the block in slot \<open>block_idx\<close> of the array of
  \<open>prefix16\<close> is replaced by its new value.
\<close>

definition block_store :: "sauron_ctx \<Rightarrow> 16 word \<Rightarrow> 8 word \<Rightarrow> cidr_block \<Rightarrow> sauron_ctx" where
  "block_store ctx prefix16 block_idx block =
     (case block_ptrs ctx prefix16 of
        None \<Rightarrow> ctx
      | Some block_arr \<Rightarrow>
          ctx\<lparr>block_ptrs := (block_ptrs ctx)(prefix16 \<mapsto> block_arr(block_idx \<mapsto> block))\<rparr>)"

text \<open>
  \<^verbatim>\<open>get_or_alloc_block\<close> returns the block of the address (\<open>None\<close> for \<^verbatim>\<open>NULL\<close>,
  when an allocation failed) and the context after the allocations.
\<close>

definition get_or_alloc_block :: "sauron_ctx \<Rightarrow> 32 word \<Rightarrow> cidr_block option \<times> sauron_ctx" where
  "get_or_alloc_block ctx ip =
     (let prefix16 = ip_to_prefix16 ip;
          block_idx = ip_to_block_idx ip;
          prefix24 = ip_to_prefix24 ip
      in case (case block_ptrs ctx prefix16 of None \<Rightarrow> None | Some block_arr \<Rightarrow> block_arr block_idx) of
           Some block \<Rightarrow>
             (Some block, if \<not> bitmap_test ctx prefix24 then bitmap_set ctx prefix24 else ctx)
         | None \<Rightarrow>
             (case (case block_ptrs ctx prefix16 of
                      Some block_arr \<Rightarrow> (Some block_arr, ctx)
                    | None \<Rightarrow>
                        (case alloc_block_ptr_array ctx of
                           (None, ctx1) \<Rightarrow> (None, ctx1)
                         | (Some block_arr, ctx1) \<Rightarrow>
                             (Some block_arr,
                              ctx1\<lparr>block_ptrs := (block_ptrs ctx1)(prefix16 \<mapsto> block_arr)\<rparr>)))
              of (None, ctx2) \<Rightarrow> (None, ctx2)
               | (Some block_arr, ctx2) \<Rightarrow>
                   (case block_arr block_idx of
                      Some block \<Rightarrow> (Some block, ctx2)
                    | None \<Rightarrow>
                        (case alloc_cidr_block ctx2 of
                           (None, ctx3) \<Rightarrow> (None, ctx3)
                         | (Some block, ctx3) \<Rightarrow>
                             (Some block,
                              bitmap_set (block_store ctx3 prefix16 block_idx block) prefix24)))))"

definition get_block :: "sauron_ctx \<Rightarrow> 32 word \<Rightarrow> cidr_block option" where
  "get_block ctx ip =
     (let prefix16 = ip_to_prefix16 ip;
          block_idx = ip_to_block_idx ip;
          prefix24 = ip_to_prefix24 ip
      in if \<not> bitmap_test ctx prefix24 then None
         else case block_ptrs ctx prefix16 of
                None \<Rightarrow> None
              | Some block_arr \<Rightarrow> block_arr block_idx)"

text \<open>
  \<^verbatim>\<open>sauron_create\<close>: the context comes from \<^verbatim>\<open>XMALLOC\<close>, which exits the process when
  it fails; the bitmap comes from \<^verbatim>\<open>aligned_alloc\<close>, and \<open>None\<close> is the \<^verbatim>\<open>NULL\<close>
  returned when that fails. The argument is the environment of the new engine.
\<close>

definition sauron_create :: "(nat \<Rightarrow> bool) \<Rightarrow> sauron_ctx option" where
  "sauron_create h =
     (if \<not> h 0 then None
      else Some \<lparr>bitmap = (\<lambda>_. 0), block_ptrs = (\<lambda>_. None), score_count = 0,
                 block_count = 0, memory_used = sizeof_sauron_ctx + BITMAP_BYTES,
                 heap = (\<lambda>n. h (Suc n))\<rparr>)"

subsection \<open>Score operations\<close>

definition sauron_get_u32 :: "sauron_ctx \<Rightarrow> 32 word \<Rightarrow> 16 word" where
  "sauron_get_u32 ctx ip =
     (case get_block ctx ip of
        None \<Rightarrow> 0
      | Some block \<Rightarrow> scores block (ip_to_host_idx ip))"

text \<open>
  The tail shared by \<^verbatim>\<open>sauron_set_u32\<close> and \<^verbatim>\<open>sauron_incr_u32\<close>: under the block
  lock, store the new score and move both counters on a zero/non-zero transition.
\<close>

definition store_score ::
  "sauron_ctx \<Rightarrow> 32 word \<Rightarrow> cidr_block \<Rightarrow> 16 word \<Rightarrow> 16 word \<Rightarrow> sauron_ctx" where
  "store_score ctx ip block old_score new_score =
     (let host_idx = ip_to_host_idx ip;
          block1 = block\<lparr>scores := (scores block)(host_idx := new_score)\<rparr>
      in if old_score = 0 \<and> new_score \<noteq> 0 then
           block_store (ctx\<lparr>score_count := score_count ctx + 1\<rparr>)
             (ip_to_prefix16 ip) (ip_to_block_idx ip)
             (block1\<lparr>active_count := active_count block1 + 1\<rparr>)
         else if old_score \<noteq> 0 \<and> new_score = 0 then
           block_store (ctx\<lparr>score_count := score_count ctx - 1\<rparr>)
             (ip_to_prefix16 ip) (ip_to_block_idx ip)
             (block1\<lparr>active_count := active_count block1 - 1\<rparr>)
         else block_store ctx (ip_to_prefix16 ip) (ip_to_block_idx ip) block1)"

definition sauron_set_u32 :: "sauron_ctx \<Rightarrow> 32 word \<Rightarrow> 16 word \<Rightarrow> 16 word \<times> sauron_ctx" where
  "sauron_set_u32 ctx ip score =
     (case get_or_alloc_block ctx ip of
        (None, ctx1) \<Rightarrow> (0, ctx1)
      | (Some block, ctx1) \<Rightarrow>
          (let old_score = scores block (ip_to_host_idx ip)
           in (old_score, store_score ctx1 ip block old_score score)))"

text \<open>
  \<^verbatim>\<open>saturating_add\<close> widens both operands to \<^verbatim>\<open>int32_t\<close>; the sum of two 16-bit
  values lies within \<open>\<plusminus>65536\<close>, so the 32-bit addition is the addition of integers.
\<close>

definition saturating_add :: "16 word \<Rightarrow> 16 word \<Rightarrow> 16 word" where
  "saturating_add a b =
     (let result = sint a + sint b
      in if result > SAURON_SCORE_MAX then word_of_int SAURON_SCORE_MAX
         else if result < SAURON_SCORE_MIN then word_of_int SAURON_SCORE_MIN
         else word_of_int result)"

definition sauron_incr_u32 :: "sauron_ctx \<Rightarrow> 32 word \<Rightarrow> 16 word \<Rightarrow> 16 word \<times> sauron_ctx" where
  "sauron_incr_u32 ctx ip delta =
     (if delta = 0 then (sauron_get_u32 ctx ip, ctx)
      else case get_or_alloc_block ctx ip of
             (None, ctx1) \<Rightarrow> (0, ctx1)
           | (Some block, ctx1) \<Rightarrow>
               (let old_score = scores block (ip_to_host_idx ip);
                    new_score = saturating_add old_score delta
                in (new_score, store_score ctx1 ip block old_score new_score)))"

definition sauron_decr_u32 :: "sauron_ctx \<Rightarrow> 32 word \<Rightarrow> 16 word \<Rightarrow> 16 word \<times> sauron_ctx" where
  "sauron_decr_u32 ctx ip delta =
     (if delta = INT16_MIN then sauron_incr_u32 ctx ip INT16_MAX
      else sauron_incr_u32 ctx ip (- delta))"

definition sauron_delete_u32 :: "sauron_ctx \<Rightarrow> 32 word \<Rightarrow> status \<times> sauron_ctx" where
  "sauron_delete_u32 ctx ip =
     (case get_block ctx ip of
        None \<Rightarrow> (SAURON_OK, ctx)
      | Some block \<Rightarrow>
          (let host_idx = ip_to_host_idx ip;
               old_score = scores block host_idx
           in if old_score \<noteq> 0 then
                (SAURON_OK,
                 block_store (ctx\<lparr>score_count := score_count ctx - 1\<rparr>)
                   (ip_to_prefix16 ip) (ip_to_block_idx ip)
                   (block\<lparr>scores := (scores block)(host_idx := 0),
                          active_count := active_count block - 1\<rparr>))
              else (SAURON_OK, ctx)))"

text \<open>
  \<^verbatim>\<open>sauron_get_ex\<close>: the second argument of the model is the caller's variable behind
  \<^verbatim>\<open>score_out\<close>, returned as the call leaves it.
\<close>

definition sauron_get_ex :: "sauron_ctx \<Rightarrow> 32 word \<Rightarrow> 16 word \<Rightarrow> status \<times> 16 word" where
  "sauron_get_ex ctx ip score_out =
     (case get_block ctx ip of
        None \<Rightarrow> (SAURON_ERR_INVALID, 0)
      | Some block \<Rightarrow>
          (let score = scores block (ip_to_host_idx ip)
           in if score = 0 then (SAURON_ERR_INVALID, score_out)
              else (SAURON_OK, score)))"

definition sauron_count :: "sauron_ctx \<Rightarrow> 64 word" where
  "sauron_count ctx = score_count ctx"

definition sauron_block_count :: "sauron_ctx \<Rightarrow> 64 word" where
  "sauron_block_count ctx = block_count ctx"

definition sauron_memory_usage :: "sauron_ctx \<Rightarrow> 64 word" where
  "sauron_memory_usage ctx = memory_used ctx"

subsection \<open>Walking the directory\<close>

text \<open>
  The /24 prefix and the address that the directory walks rebuild from their loop
  indices: \<^verbatim>\<open>(prefix16 << 8) | block_idx\<close> and
  \<^verbatim>\<open>(prefix16 << 16) | (block_idx << 8) | host_idx\<close>.
\<close>

definition mk_prefix24 :: "16 word \<Rightarrow> 8 word \<Rightarrow> 32 word" where
  "mk_prefix24 prefix16 block_idx = push_bit 8 (ucast prefix16) OR ucast block_idx"

definition mk_ip :: "16 word \<Rightarrow> 8 word \<Rightarrow> 8 word \<Rightarrow> 32 word" where
  "mk_ip prefix16 block_idx host_idx =
     push_bit 16 (ucast prefix16) OR push_bit 8 (ucast block_idx) OR ucast host_idx"

text \<open>
  \<^verbatim>\<open>sauron_clear\<close>, \<^verbatim>\<open>sauron_decay\<close>, \<^verbatim>\<open>sauron_save\<close> and \<^verbatim>\<open>sauron_load\<close> walk
  the directory with the same two loops: \<^verbatim>\<open>prefix16\<close> runs from 0 to 65535, a /16
  whose array pointer is \<^verbatim>\<open>NULL\<close> is skipped, and \<^verbatim>\<open>block_idx\<close> runs from 0 to 255.
  \<open>has_array\<close> is the test of the array pointer in the current state and \<open>body\<close>
  the body of the inner loop.
\<close>

definition for_blocks ::
  "('s \<Rightarrow> 16 word \<Rightarrow> bool) \<Rightarrow> (16 word \<Rightarrow> 8 word \<Rightarrow> 's \<Rightarrow> 's) \<Rightarrow> 's \<Rightarrow> 's" where
  "for_blocks has_array body s =
     fold (\<lambda>prefix16 s.
             if has_array s (of_nat prefix16)
             then fold (\<lambda>block_idx. body (of_nat prefix16) (of_nat block_idx)) [0..<256] s
             else s)
          [0..<65536] s"

subsection \<open>Clear\<close>

text \<open>
  The body of the clearing loop, which \<^verbatim>\<open>sauron_clear\<close> and \<^verbatim>\<open>sauron_load\<close> both
  contain: \<^verbatim>\<open>memset\<close> the scores, zero \<open>active_count\<close>, clear the bitmap bit.
\<close>

definition clear_block :: "16 word \<Rightarrow> 8 word \<Rightarrow> sauron_ctx \<Rightarrow> sauron_ctx" where
  "clear_block prefix16 block_idx ctx =
     (case (case block_ptrs ctx prefix16 of None \<Rightarrow> None | Some block_arr \<Rightarrow> block_arr block_idx) of
        None \<Rightarrow> ctx
      | Some block \<Rightarrow>
          bitmap_clear
            (block_store ctx prefix16 block_idx (block\<lparr>scores := (\<lambda>_. 0), active_count := 0\<rparr>))
            (mk_prefix24 prefix16 block_idx))"

definition clear_all_blocks :: "sauron_ctx \<Rightarrow> sauron_ctx" where
  "clear_all_blocks ctx =
     (for_blocks (\<lambda>ctx prefix16. block_ptrs ctx prefix16 \<noteq> None) clear_block ctx)
       \<lparr>score_count := 0\<rparr>"

definition sauron_clear :: "sauron_ctx \<Rightarrow> status \<times> sauron_ctx" where
  "sauron_clear ctx = (SAURON_OK, clear_all_blocks ctx)"

subsection \<open>Decay\<close>

text \<open>
  The decay factor is a \<^verbatim>\<open>float\<close>, an IEEE 754 binary32 number. \<open>Finite s m e\<close>
  stands for \<open>(-1)\<^sup>s \<sqdot> m \<sqdot> 2\<^sup>e\<close>; a binary32 number has \<open>m < 2\<^sup>2\<^sup>4\<close> and
  \<open>e \<ge> -149\<close>. The type has no NaN: a NaN factor passes the range guard of
  \<^verbatim>\<open>sauron_decay\<close> (both comparisons are false) and is then converted to
  \<^verbatim>\<open>int16_t\<close>, which is undefined behaviour in C.
\<close>

datatype f32 = Finite bool nat int | Infinity bool

fun bit_length :: "nat \<Rightarrow> nat" where
  "bit_length n = (if n = 0 then 0 else Suc (bit_length (n div 2)))"

declare bit_length.simps [simp del]

text \<open>
  Rounding of the exact value \<open>(-1)\<^sup>s \<sqdot> n \<sqdot> 2\<^sup>e\<close> to binary32, to nearest with ties to
  even: \<open>k\<close> low bits are dropped so that 24 bits of significand remain and the exponent
  does not go below that of the subnormal numbers.
\<close>

definition f32_round :: "bool \<Rightarrow> nat \<Rightarrow> int \<Rightarrow> f32" where
  "f32_round s n e =
     (let k = max (int (bit_length n) - 24) (max (- 149 - e) 0);
          q = n div 2 ^ nat k;
          r = n mod 2 ^ nat k;
          m = (if 2 * r > 2 ^ nat k \<or> (2 * r = 2 ^ nat k \<and> odd q) then q + 1 else q)
      in if int (bit_length m) + (e + k) > 128 then Infinity s else Finite s m (e + k))"

text \<open>\<^verbatim>\<open>decay_factor < 0.0f\<close> and \<^verbatim>\<open>decay_factor > 1.0f\<close>.\<close>

fun f32_lt_zero :: "f32 \<Rightarrow> bool" where
  "f32_lt_zero (Finite s m e) = (s \<and> m \<noteq> 0)"
| "f32_lt_zero (Infinity s) = s"

fun f32_gt_one :: "f32 \<Rightarrow> bool" where
  "f32_gt_one (Finite s m e) =
     (\<not> s \<and> (if 0 \<le> e then 1 < m * 2 ^ nat e else 2 ^ nat (- e) < m))"
| "f32_gt_one (Infinity s) = (\<not> s)"

text \<open>
  \<^verbatim>\<open>(float)old_score * decay_factor\<close> for a non-zero score: the conversion of a
  16-bit integer to \<^verbatim>\<open>float\<close> is exact, the product is rounded to \<^verbatim>\<open>float\<close>.
\<close>

fun decay_mul :: "16 word \<Rightarrow> f32 \<Rightarrow> f32" where
  "decay_mul old_score (Finite s m e) =
     f32_round ((sint old_score < 0) \<noteq> s) (nat \<bar>sint old_score\<bar> * m) e"
| "decay_mul old_score (Infinity s) = Infinity ((sint old_score < 0) \<noteq> s)"

text \<open>
  The cast \<^verbatim>\<open>(int16_t)\<close> of a \<^verbatim>\<open>float\<close> truncates toward zero. The cast of a
  value outside the range of \<^verbatim>\<open>int16_t\<close> is undefined in C; here it wraps, and an
  infinity gives 0. With a factor that passes the guard neither case arises.
\<close>

fun f32_to_int16 :: "f32 \<Rightarrow> 16 word" where
  "f32_to_int16 (Finite s m e) =
     (let t = (if 0 \<le> e then int m * 2 ^ nat e else int m div 2 ^ nat (- e))
      in word_of_int (if s then - t else t))"
| "f32_to_int16 (Infinity s) = 0"

text \<open>
  One iteration of the scalar loop over the hosts of a block. The loop works on the
  block behind the pointer, on \<open>score_count\<close> and on the counter \<open>modified\<close>.
\<close>

definition decay_host ::
  "f32 \<Rightarrow> 16 word \<Rightarrow> nat \<Rightarrow> cidr_block \<times> 64 word \<times> 64 word \<Rightarrow> cidr_block \<times> 64 word \<times> 64 word" where
  "decay_host decay_factor abs_deadzone host_idx st =
     (case st of (block, count, modified) \<Rightarrow>
        let old_score = scores block (of_nat host_idx)
        in if old_score = 0 then (block, count, modified)
           else
             let new_score = f32_to_int16 (decay_mul old_score decay_factor);
                 new_score =
                   (if 0 \<le> sint new_score \<and> sint new_score \<le> sint abs_deadzone then 0
                    else if sint new_score < 0 \<and> - sint abs_deadzone \<le> sint new_score then 0
                    else new_score)
             in if new_score \<noteq> old_score then
                  (if new_score = 0 then
                     (block\<lparr>scores := (scores block)(of_nat host_idx := new_score),
                            active_count := active_count block - 1\<rparr>,
                      count - 1, modified + 1)
                   else
                     (block\<lparr>scores := (scores block)(of_nat host_idx := new_score)\<rparr>,
                      count, modified + 1))
                else (block, count, modified))"

definition decay_block ::
  "f32 \<Rightarrow> 16 word \<Rightarrow> 16 word \<Rightarrow> 8 word \<Rightarrow> sauron_ctx \<times> 64 word \<Rightarrow> sauron_ctx \<times> 64 word" where
  "decay_block decay_factor abs_deadzone prefix16 block_idx st =
     (case st of (ctx, modified) \<Rightarrow>
        let prefix24 = mk_prefix24 prefix16 block_idx
        in if \<not> bitmap_test ctx prefix24 then (ctx, modified)
           else
             case (case block_ptrs ctx prefix16 of None \<Rightarrow> None | Some block_arr \<Rightarrow> block_arr block_idx) of
               None \<Rightarrow> (ctx, modified)
             | Some block \<Rightarrow>
                 if active_count block = 0 then (bitmap_clear ctx prefix24, modified)
                 else
                   case fold (decay_host decay_factor abs_deadzone) [0..<256]
                          (block, score_count ctx, modified) of
                     (block1, count1, modified1) \<Rightarrow>
                       let ctx1 = block_store (ctx\<lparr>score_count := count1\<rparr>) prefix16 block_idx block1
                       in (if active_count block1 = 0 then bitmap_clear ctx1 prefix24 else ctx1,
                           modified1))"

definition sauron_decay :: "sauron_ctx \<Rightarrow> f32 \<Rightarrow> 16 word \<Rightarrow> 64 word \<times> sauron_ctx" where
  "sauron_decay ctx decay_factor deadzone =
     (if f32_lt_zero decay_factor \<or> f32_gt_one decay_factor then (0, ctx)
      else
        let abs_deadzone = (if sint deadzone < 0 then - deadzone else deadzone)
        in case for_blocks (\<lambda>st prefix16. block_ptrs (fst st) prefix16 \<noteq> None)
                  (decay_block decay_factor abs_deadzone) (ctx, 0) of
             (ctx1, modified) \<Rightarrow> (modified, ctx1))"

subsection \<open>Batch increment\<close>

definition sauron_incr_batch :: "sauron_ctx \<Rightarrow> (32 word \<times> 16 word) list \<Rightarrow> nat \<times> sauron_ctx" where
  "sauron_incr_batch ctx batch =
     fold (\<lambda>(ip, delta) (success_count, ctx).
             (success_count + 1, snd (sauron_incr_u32 ctx ip delta)))
          batch (0, ctx)"

subsection \<open>Bulk CSV loading\<close>

text \<open>
  A line is a C string: it ends at the first NUL. \<open>is_digit\<close> is
  \<^verbatim>\<open>*p >= '0' && *p <= '9'\<close>.
\<close>

definition is_digit :: "char \<Rightarrow> bool" where
  "is_digit c = (48 \<le> (of_char c :: nat) \<and> (of_char c :: nat) \<le> 57)"

definition digit_val :: "char \<Rightarrow> nat" where
  "digit_val c = of_char c - 48"

fun skip_blanks :: "string \<Rightarrow> string" where
  "skip_blanks [] = []"
| "skip_blanks (c # cs) = (if c = CHR '' '' \<or> c = CHR 0x09 then skip_blanks cs else c # cs)"

text \<open>
  The loop that reads the address. It stops before a comma, a blank or the end of the
  line and returns what is left with the variables \<open>ip\<close>, \<open>octet\<close>, \<open>dots\<close> and
  \<open>digits\<close>; \<open>None\<close> is \<^verbatim>\<open>return 0\<close>. An octet never exceeds 255 when a digit is
  added, so the \<^verbatim>\<open>uint32_t\<close> arithmetic on it does not wrap.
\<close>

fun parse_ip_loop ::
  "string \<Rightarrow> 32 word \<Rightarrow> nat \<Rightarrow> nat \<Rightarrow> nat \<Rightarrow> (string \<times> 32 word \<times> nat \<times> nat \<times> nat) option" where
  "parse_ip_loop [] ip octet dots digits = Some ([], ip, octet, dots, digits)"
| "parse_ip_loop (c # cs) ip octet dots digits =
     (if c = CHR '','' then Some (c # cs, ip, octet, dots, digits)
      else if is_digit c then
        (if 255 < octet * 10 + digit_val c then None
         else parse_ip_loop cs ip (octet * 10 + digit_val c) dots (digits + 1))
      else if c = CHR ''.'' then
        (if digits = 0 then None
         else if 3 \<le> dots then None
         else parse_ip_loop cs (push_bit 8 ip OR of_nat octet) 0 (dots + 1) 0)
      else if c = CHR '' '' \<or> c = CHR 0x09 then Some (c # cs, ip, octet, dots, digits)
      else None)"

text \<open>The loop that reads the digits of the value, saturating at 32767.\<close>

fun parse_value_loop :: "string \<Rightarrow> int \<Rightarrow> string \<times> int" where
  "parse_value_loop [] v = ([], v)"
| "parse_value_loop (c # cs) v =
     (if is_digit c then
        parse_value_loop cs
          (if 32767 < v * 10 + int (digit_val c) then 32767 else v * 10 + int (digit_val c))
      else (c # cs, v))"

fun skip_trailing :: "string \<Rightarrow> string" where
  "skip_trailing [] = []"
| "skip_trailing (c # cs) =
     (if c = CHR '' '' \<or> c = CHR 0x09 \<or> c = CHR 0x0D \<or> c = CHR 0x0A then skip_trailing cs
      else c # cs)"

text \<open>The prefix of the value: \<open>(is_relative, negative, rest)\<close>.\<close>

definition parse_sign :: "string \<Rightarrow> bool \<times> bool \<times> string" where
  "parse_sign p =
     (case p of
        [] \<Rightarrow> (False, False, p)
      | c # q \<Rightarrow>
          if c = CHR ''+'' then
            (case q of
               [] \<Rightarrow> (True, False, q)
             | c' # r \<Rightarrow> if c' = CHR ''-'' then (True, True, r) else (True, False, q))
          else if c = CHR ''-'' then (False, True, q)
          else (False, False, p))"

text \<open>
  \<^verbatim>\<open>parse_bulk_line\<close> in two parts: what follows the comma (blanks, the prefix, the
  digits, trailing blanks and an optional comment) gives the value and \<open>is_relative\<close>;
  what precedes it gives the address.
\<close>

definition parse_bulk_value :: "string \<Rightarrow> (16 word \<times> bool) option" where
  "parse_bulk_value p1 =
     (case parse_sign (skip_blanks p1) of
        (is_relative, negative, p2) \<Rightarrow>
          (case p2 of
             [] \<Rightarrow> None
           | d # _ \<Rightarrow>
               if \<not> is_digit d then None
               else
                 (case parse_value_loop p2 0 of
                    (p3, v) \<Rightarrow>
                      (case skip_trailing p3 of
                         [] \<Rightarrow> Some (word_of_int (if negative then - v else v), is_relative)
                       | e # _ \<Rightarrow>
                           if e = CHR ''#''
                           then Some (word_of_int (if negative then - v else v), is_relative)
                           else None))))"

definition parse_bulk_line :: "string \<Rightarrow> (32 word \<times> 16 word \<times> bool) option" where
  "parse_bulk_line line =
     (case parse_ip_loop (skip_blanks (takeWhile (\<lambda>c. c \<noteq> CHR 0x00) line)) 0 0 0 0 of
        None \<Rightarrow> None
      | Some (p, ip, octet, dots, digits) \<Rightarrow>
          if dots \<noteq> 3 \<or> digits = 0 then None
          else
            (case skip_blanks p of
               [] \<Rightarrow> None
             | c # p1 \<Rightarrow>
                 if c \<noteq> CHR '','' then None
                 else
                   (case parse_bulk_value p1 of
                      None \<Rightarrow> None
                    | Some (v, is_relative) \<Rightarrow>
                        Some (push_bit 8 ip OR of_nat octet, v, is_relative))))"

text \<open>
  \<^verbatim>\<open>sauron_bulk_result_t\<close> without its two timing fields, which depend on the clock.
\<close>

record sauron_bulk_result =
  lines_processed :: "64 word"
  lines_skipped :: "64 word"
  sets :: "64 word"
  updates :: "64 word"
  parse_errors :: "64 word"

definition BULK_LINE_MAX :: nat where "BULK_LINE_MAX = 64"

text \<open>
  The end of the loop body, the same in \<^verbatim>\<open>sauron_bulk_load\<close> and
  \<^verbatim>\<open>sauron_bulk_load_buffer\<close>: parse the line and apply the change.
\<close>

definition bulk_apply :: "string \<Rightarrow> sauron_ctx \<times> sauron_bulk_result \<Rightarrow> sauron_ctx \<times> sauron_bulk_result" where
  "bulk_apply line_buffer st =
     (case st of (ctx, stats) \<Rightarrow>
        case parse_bulk_line line_buffer of
          None \<Rightarrow>
            (ctx, stats\<lparr>parse_errors := parse_errors stats + 1,
                        lines_skipped := lines_skipped stats + 1\<rparr>)
        | Some (ip, v, is_relative) \<Rightarrow>
            if is_relative then
              (snd (sauron_incr_u32 ctx ip v), stats\<lparr>updates := updates stats + 1\<rparr>)
            else
              (snd (sauron_set_u32 ctx ip v), stats\<lparr>sets := sets stats + 1\<rparr>))"

text \<open>
  The lines \<^verbatim>\<open>sauron_bulk_load_buffer\<close> finds in its buffer: the bytes between
  newlines, a last line without a newline included, nothing after a final newline.
\<close>

fun buffer_lines :: "string \<Rightarrow> string list" where
  "buffer_lines [] = []"
| "buffer_lines (c # cs) =
     (if c = CHR 0x0A then [] # buffer_lines cs
      else (case buffer_lines cs of [] \<Rightarrow> [[c]] | l # ls \<Rightarrow> (c # l) # ls))"

definition bulk_buffer_line ::
  "string \<Rightarrow> sauron_ctx \<times> sauron_bulk_result \<Rightarrow> sauron_ctx \<times> sauron_bulk_result" where
  "bulk_buffer_line line st =
     (case st of (ctx, stats) \<Rightarrow>
        let line_len = (if BULK_LINE_MAX \<le> length line then BULK_LINE_MAX - 1 else length line);
            line_buffer = take line_len line;
            stats1 = stats\<lparr>lines_processed := lines_processed stats + 1\<rparr>
        in if line_len = 0 \<or> hd line_buffer = CHR ''#'' then (ctx, stats1)
           else bulk_apply line_buffer (ctx, stats1))"

definition sauron_bulk_load_buffer ::
  "sauron_ctx \<Rightarrow> string \<Rightarrow> status \<times> sauron_ctx \<times> sauron_bulk_result" where
  "sauron_bulk_load_buffer ctx data =
     (case fold bulk_buffer_line (buffer_lines data)
             (ctx, \<lparr>lines_processed = 0, lines_skipped = 0, sets = 0, updates = 0,
                    parse_errors = 0\<rparr>) of
        (ctx1, stats) \<Rightarrow> (SAURON_OK, ctx1, stats))"

text \<open>
  \<^verbatim>\<open>sauron_bulk_load\<close> reads its file with \<^verbatim>\<open>getline\<close>: every line keeps its
  newline, and nothing is cut to \<open>BULK_LINE_MAX\<close>. The file is given by its content,
  \<open>None\<close> when it cannot be opened; \<open>line_buffer_ok\<close> is the outcome of the
  \<^verbatim>\<open>malloc\<close> of the line buffer. The statistics are \<open>None\<close> when the function
  returns before it writes them.
\<close>

fun file_lines :: "string \<Rightarrow> string list" where
  "file_lines [] = []"
| "file_lines (c # cs) =
     (if c = CHR 0x0A then [c] # file_lines cs
      else (case file_lines cs of [] \<Rightarrow> [[c]] | l # ls \<Rightarrow> (c # l) # ls))"

definition bulk_file_line ::
  "string \<Rightarrow> sauron_ctx \<times> sauron_bulk_result \<Rightarrow> sauron_ctx \<times> sauron_bulk_result" where
  "bulk_file_line line_buffer st =
     (case st of (ctx, stats) \<Rightarrow>
        let stats1 = stats\<lparr>lines_processed := lines_processed stats + 1\<rparr>
        in if length line_buffer = 0 \<or> hd line_buffer = CHR ''#'' \<or> hd line_buffer = CHR 0x0A
           then (ctx, stats1)
           else bulk_apply line_buffer (ctx, stats1))"

definition sauron_bulk_load ::
  "sauron_ctx \<Rightarrow> string option \<Rightarrow> bool \<Rightarrow> status \<times> sauron_ctx \<times> sauron_bulk_result option" where
  "sauron_bulk_load ctx file line_buffer_ok =
     (case file of
        None \<Rightarrow> (SAURON_ERR_IO, ctx, None)
      | Some content \<Rightarrow>
          if \<not> line_buffer_ok then (SAURON_ERR_NOMEM, ctx, None)
          else
            (case fold bulk_file_line (file_lines content)
                    (ctx, \<lparr>lines_processed = 0, lines_skipped = 0, sets = 0, updates = 0,
                           parse_errors = 0\<rparr>) of
               (ctx1, stats) \<Rightarrow> (SAURON_OK, ctx1, Some stats)))"

subsection \<open>Persistence\<close>

text \<open>
  The archive is a sequence of bytes: the magic \<^verbatim>\<open>SAUR\<close>, the version (4 bytes), the
  entry count (8 bytes), then 6 bytes for each entry, the address (4 bytes) and the score
  (2 bytes). The source writes the integers as they lie in memory; the model fixes a
  little-endian host.
\<close>

definition SAURON_MAGIC :: "8 word list" where
  "SAURON_MAGIC = [0x53, 0x41, 0x55, 0x52]"

definition SAURON_ARCHIVE_VERSION :: "32 word" where
  "SAURON_ARCHIVE_VERSION = 1"

definition MAX_ARCHIVE_ENTRIES :: "64 word" where
  "MAX_ARCHIVE_ENTRIES = 0x100000000"

definition le16_bytes :: "16 word \<Rightarrow> 8 word list" where
  "le16_bytes w = [ucast w, ucast (drop_bit 8 w)]"

definition le32_bytes :: "32 word \<Rightarrow> 8 word list" where
  "le32_bytes w = [ucast w, ucast (drop_bit 8 w), ucast (drop_bit 16 w), ucast (drop_bit 24 w)]"

definition le64_bytes :: "64 word \<Rightarrow> 8 word list" where
  "le64_bytes w =
     [ucast w, ucast (drop_bit 8 w), ucast (drop_bit 16 w), ucast (drop_bit 24 w),
      ucast (drop_bit 32 w), ucast (drop_bit 40 w), ucast (drop_bit 48 w), ucast (drop_bit 56 w)]"

text \<open>The integer held by a little-endian sequence of bytes.\<close>

fun le_word :: "8 word list \<Rightarrow> 'a::len word" where
  "le_word [] = 0"
| "le_word (b # bs) = ucast b OR push_bit 8 (le_word bs)"

text \<open>
  The walk of \<^verbatim>\<open>sauron_save\<close> over the blocks: the state is the sequence of entries
  written so far (through the write buffer, which does not change what reaches the
  file) and \<open>actual_entry_count\<close>.
\<close>

definition save_host ::
  "16 word \<Rightarrow> 8 word \<Rightarrow> cidr_block \<Rightarrow> nat \<Rightarrow> (32 word \<times> 16 word) list \<times> 64 word \<Rightarrow>
   (32 word \<times> 16 word) list \<times> 64 word" where
  "save_host prefix16 block_idx block host_idx st =
     (case st of (entries, actual_entry_count) \<Rightarrow>
        let score = scores block (of_nat host_idx)
        in if score = 0 then (entries, actual_entry_count)
           else (entries @ [(mk_ip prefix16 block_idx (of_nat host_idx), score)],
                 actual_entry_count + 1))"

definition save_block ::
  "sauron_ctx \<Rightarrow> 16 word \<Rightarrow> 8 word \<Rightarrow> (32 word \<times> 16 word) list \<times> 64 word \<Rightarrow>
   (32 word \<times> 16 word) list \<times> 64 word" where
  "save_block ctx prefix16 block_idx st =
     (case (case block_ptrs ctx prefix16 of None \<Rightarrow> None | Some block_arr \<Rightarrow> block_arr block_idx) of
        None \<Rightarrow> st
      | Some block \<Rightarrow>
          if active_count block = 0 then st
          else fold (save_host prefix16 block_idx block) [0..<256] st)"

definition save_entries :: "sauron_ctx \<Rightarrow> (32 word \<times> 16 word) list \<times> 64 word" where
  "save_entries ctx =
     for_blocks (\<lambda>st prefix16. block_ptrs ctx prefix16 \<noteq> None) (save_block ctx) ([], 0)"

definition archive_bytes :: "sauron_ctx \<Rightarrow> 8 word list" where
  "archive_bytes ctx =
     (case save_entries ctx of (entries, actual_entry_count) \<Rightarrow>
        SAURON_MAGIC @ le32_bytes SAURON_ARCHIVE_VERSION @ le64_bytes actual_entry_count @
        concat (map (\<lambda>(ip, score). le32_bytes ip @ le16_bytes score) entries))"

text \<open>
  The file system maps a name to the content of the file. \<^verbatim>\<open>sauron_save\<close> writes to
  \<^verbatim>\<open><filename>.tmp.<pid>\<close>, cut to \<open>PATH_MAX - 1\<close> characters by \<^verbatim>\<open>snprintf\<close>, and
  renames that file over the target. The environment decides whether the input/output
  calls succeed: the temporary file cannot be opened, or a later call (write, seek,
  flush, sync, rename) fails, after which the temporary file is unlinked.
\<close>

type_synonym file_system = "string \<Rightarrow> 8 word list option"

datatype io_outcome = IO_OK | IO_OPEN_FAILS | IO_FAILS_LATER

definition PATH_MAX :: nat where "PATH_MAX = 4096"

fun decimal :: "nat \<Rightarrow> string" where
  "decimal n = (if n < 10 then [char_of (48 + n)] else decimal (n div 10) @ [char_of (48 + n mod 10)])"

declare decimal.simps [simp del]

definition tmp_filename :: "string \<Rightarrow> nat \<Rightarrow> string" where
  "tmp_filename filename pid = take (PATH_MAX - 1) (filename @ ''.tmp.'' @ decimal pid)"

definition sauron_save ::
  "sauron_ctx \<Rightarrow> string \<Rightarrow> nat \<Rightarrow> io_outcome \<Rightarrow> file_system \<Rightarrow> status \<times> file_system" where
  "sauron_save ctx filename pid io fs =
     (case io of
        IO_OPEN_FAILS \<Rightarrow> (SAURON_ERR_IO, fs)
      | IO_FAILS_LATER \<Rightarrow> (SAURON_ERR_IO, fs(tmp_filename filename pid := None))
      | IO_OK \<Rightarrow>
          (SAURON_OK, (fs(tmp_filename filename pid := None))(filename \<mapsto> archive_bytes ctx)))"

text \<open>
  The loop of \<^verbatim>\<open>sauron_load\<close> over the entries: \<open>n\<close> entries are still to be read
  from \<open>bytes\<close>, the rest of the file. A short read ends the load with an I/O error
  and keeps the entries applied so far.
\<close>

fun load_entries :: "nat \<Rightarrow> 8 word list \<Rightarrow> sauron_ctx \<Rightarrow> status \<times> sauron_ctx" where
  "load_entries 0 bytes ctx = (SAURON_OK, ctx)"
| "load_entries (Suc n) bytes ctx =
     (if length bytes < 6 then (SAURON_ERR_IO, ctx)
      else
        let ip = le_word (take 4 bytes);
            score = le_word (take 2 (drop 4 bytes))
        in load_entries n (drop 6 bytes)
             (if score = 0 then ctx else snd (sauron_set_u32 ctx ip score)))"

definition sauron_load :: "sauron_ctx \<Rightarrow> string \<Rightarrow> file_system \<Rightarrow> status \<times> sauron_ctx" where
  "sauron_load ctx filename fs =
     (case fs filename of
        None \<Rightarrow> (SAURON_ERR_IO, ctx)
      | Some bytes \<Rightarrow>
          if length bytes < 8 then (SAURON_ERR_IO, ctx)
          else if take 4 bytes \<noteq> SAURON_MAGIC then (SAURON_ERR_INVALID, ctx)
          else if (le_word (take 4 (drop 4 bytes)) :: 32 word) = 0
                  \<or> SAURON_ARCHIVE_VERSION < (le_word (take 4 (drop 4 bytes)) :: 32 word)
               then (SAURON_ERR_INVALID, ctx)
          else if length bytes < 16 then (SAURON_ERR_IO, ctx)
          else if MAX_ARCHIVE_ENTRIES < (le_word (take 8 (drop 8 bytes)) :: 64 word)
               then (SAURON_ERR_INVALID, ctx)
          else load_entries (unat (le_word (take 8 (drop 8 bytes)) :: 64 word)) (drop 16 bytes)
                 (clear_all_blocks ctx))"

section \<open>Specification-level notions\<close>

text \<open>
  The block slot of a /24 (the load of \<^verbatim>\<open>block_arr[block_idx]\<close> behind a non-null
  array pointer) and the score stored for an address, \<open>0\<close> where no block exists.
\<close>

definition block_at :: "sauron_ctx \<Rightarrow> 16 word \<Rightarrow> 8 word \<Rightarrow> cidr_block option" where
  "block_at ctx prefix16 block_idx =
     (case block_ptrs ctx prefix16 of None \<Rightarrow> None | Some block_arr \<Rightarrow> block_arr block_idx)"

definition cell :: "sauron_ctx \<Rightarrow> 32 word \<Rightarrow> 16 word" where
  "cell ctx ip =
     (case block_at ctx (ip_to_prefix16 ip) (ip_to_block_idx ip) of
        None \<Rightarrow> 0
      | Some block \<Rightarrow> scores block (ip_to_host_idx ip))"

definition empty_block :: cidr_block where
  "empty_block = \<lparr>scores = (\<lambda>_. 0), active_count = 0\<rparr>"

text \<open>The clamp of the specification, on integers.\<close>

definition clamp :: "int \<Rightarrow> int" where
  "clamp v = max (- 32767) (min 32767 v)"

text \<open>An environment in which no allocation fails, and the engine created in it.\<close>

definition no_oom :: "nat \<Rightarrow> bool" where
  "no_oom n = True"

definition fresh_engine :: sauron_ctx where
  "fresh_engine =
     \<lparr>bitmap = (\<lambda>_. 0), block_ptrs = (\<lambda>_. None), score_count = 0, block_count = 0,
      memory_used = sizeof_sauron_ctx + BITMAP_BYTES, heap = no_oom\<rparr>"


text \<open>
  The number of non-zero scores of a block, of the block in a slot of the directory,
  and of the whole table.
\<close>

definition nonzero_in :: "cidr_block \<Rightarrow> nat" where
  "nonzero_in block = card {h. scores block h \<noteq> 0}"

definition live_in :: "sauron_ctx \<Rightarrow> 16 word \<times> 8 word \<Rightarrow> nat" where
  "live_in ctx slot =
     (case block_at ctx (fst slot) (snd slot) of None \<Rightarrow> 0 | Some block \<Rightarrow> nonzero_in block)"

definition live_total :: "sauron_ctx \<Rightarrow> nat" where
  "live_total ctx = sum (live_in ctx) UNIV"

text \<open>
  The invariant of the engine: every block counts its non-zero scores, the context
  counts those of all blocks, and a block whose bitmap bit is clear holds no score.
\<close>

definition counts_ok :: "sauron_ctx \<Rightarrow> bool" where
  "counts_ok ctx \<longleftrightarrow>
     (\<forall>p b block. block_at ctx p b = Some block \<longrightarrow> active_count block = of_nat (nonzero_in block))
     \<and> score_count ctx = of_nat (live_total ctx)"

definition bitmap_ok :: "sauron_ctx \<Rightarrow> bool" where
  "bitmap_ok ctx \<longleftrightarrow>
     (\<forall>p b block. block_at ctx p b = Some block \<longrightarrow> \<not> bitmap_test ctx (mk_prefix24 p b) \<longrightarrow>
        nonzero_in block = 0)"

definition engine_inv :: "sauron_ctx \<Rightarrow> bool" where
  "engine_inv ctx \<longleftrightarrow> counts_ok ctx \<and> bitmap_ok ctx"

text \<open>
  The operations that change an engine, with their arguments and with what the
  environment supplies to them, and the engine states they reach from a newly created
  engine. \<open>reachable_by ok\<close> admits the operations that satisfy \<open>ok\<close> only.
\<close>

datatype operation =
    Set "32 word" "16 word"
  | Incr "32 word" "16 word"
  | Decr "32 word" "16 word"
  | Delete "32 word"
  | IncrBatch "(32 word \<times> 16 word) list"
  | Decay f32 "16 word"
  | Clear
  | Load string file_system
  | BulkLoad "string option" bool
  | BulkLoadBuffer string

fun apply_op :: "operation \<Rightarrow> sauron_ctx \<Rightarrow> sauron_ctx" where
  "apply_op (Set ip score) ctx = snd (sauron_set_u32 ctx ip score)"
| "apply_op (Incr ip delta) ctx = snd (sauron_incr_u32 ctx ip delta)"
| "apply_op (Decr ip delta) ctx = snd (sauron_decr_u32 ctx ip delta)"
| "apply_op (Delete ip) ctx = snd (sauron_delete_u32 ctx ip)"
| "apply_op (IncrBatch batch) ctx = snd (sauron_incr_batch ctx batch)"
| "apply_op (Decay decay_factor deadzone) ctx = snd (sauron_decay ctx decay_factor deadzone)"
| "apply_op Clear ctx = snd (sauron_clear ctx)"
| "apply_op (Load filename fs) ctx = snd (sauron_load ctx filename fs)"
| "apply_op (BulkLoad file line_buffer_ok) ctx = fst (snd (sauron_bulk_load ctx file line_buffer_ok))"
| "apply_op (BulkLoadBuffer data) ctx = fst (snd (sauron_bulk_load_buffer ctx data))"

inductive reachable_by :: "(operation \<Rightarrow> bool) \<Rightarrow> sauron_ctx \<Rightarrow> bool"
  for ok :: "operation \<Rightarrow> bool" where
  created: "sauron_create h = Some ctx \<Longrightarrow> reachable_by ok ctx"
| step: "reachable_by ok ctx \<Longrightarrow> ok opn \<Longrightarrow> reachable_by ok (apply_op opn ctx)"

definition any_operation :: "operation \<Rightarrow> bool" where
  "any_operation opn = True"

definition reachable :: "sauron_ctx \<Rightarrow> bool" where
  "reachable ctx = reachable_by any_operation ctx"

text \<open>
  The score that the decay gives a cell: the truncated product, snapped to 0 inside the
  deadzone; a zero cell is skipped.
\<close>

definition decay_value :: "f32 \<Rightarrow> 16 word \<Rightarrow> 16 word \<Rightarrow> 16 word" where
  "decay_value decay_factor abs_deadzone old_score =
     (if old_score = 0 then 0
      else
        let new_score = f32_to_int16 (decay_mul old_score decay_factor)
        in if 0 \<le> sint new_score \<and> sint new_score \<le> sint abs_deadzone then 0
           else if sint new_score < 0 \<and> - sint abs_deadzone \<le> sint new_score then 0
           else new_score)"

text \<open>The deadzone as \<^verbatim>\<open>sauron_decay\<close> computes it from its argument.\<close>

definition abs_deadzone :: "16 word \<Rightarrow> 16 word" where
  "abs_deadzone deadzone = (if sint deadzone < 0 then - deadzone else deadzone)"

text \<open>A block after \<^verbatim>\<open>memset\<close> of its scores and the reset of its counter.\<close>

definition zeroed :: "cidr_block \<Rightarrow> cidr_block" where
  "zeroed block = block\<lparr>scores := (\<lambda>_. 0), active_count := 0\<rparr>"

text \<open>
  The state of the host loop of the decay after the hosts below \<open>n\<close>: the hosts whose
  score became zero, those whose score changed, and the block with the two counters.
\<close>

definition decay_zeroed :: "f32 \<Rightarrow> 16 word \<Rightarrow> cidr_block \<Rightarrow> nat \<Rightarrow> 8 word set" where
  "decay_zeroed f a block n =
     {h. unat h < n \<and> scores block h \<noteq> 0 \<and> decay_value f a (scores block h) = 0}"

definition decay_changed :: "f32 \<Rightarrow> 16 word \<Rightarrow> cidr_block \<Rightarrow> nat \<Rightarrow> 8 word set" where
  "decay_changed f a block n =
     {h. unat h < n \<and> decay_value f a (scores block h) \<noteq> scores block h}"

definition decay_state ::
  "f32 \<Rightarrow> 16 word \<Rightarrow> cidr_block \<Rightarrow> 64 word \<Rightarrow> 64 word \<Rightarrow> nat \<Rightarrow> cidr_block \<times> 64 word \<times> 64 word" where
  "decay_state f a block c m n =
     (block\<lparr>scores := (\<lambda>h. if unat h < n then decay_value f a (scores block h) else scores block h),
            active_count := active_count block - of_nat (card (decay_zeroed f a block n))\<rparr>,
      c - of_nat (card (decay_zeroed f a block n)),
      m + of_nat (card (decay_changed f a block n)))"

text \<open>What the decay makes of the block in a slot, by the bitmap bit of the slot.\<close>

definition decayed :: "f32 \<Rightarrow> 16 word \<Rightarrow> bool \<Rightarrow> cidr_block \<Rightarrow> cidr_block" where
  "decayed f a bit_set block =
     (if bit_set \<and> active_count block \<noteq> 0 then fst (decay_state f a block 0 0 256) else block)"

text \<open>The three fields of the header of an archive, and two files for the examples.\<close>

definition header_magic :: "8 word list \<Rightarrow> 8 word list" where
  "header_magic bytes = take 4 bytes"

definition header_version :: "8 word list \<Rightarrow> 32 word" where
  "header_version bytes = le_word (take 4 (drop 4 bytes))"

definition header_entry_count :: "8 word list \<Rightarrow> 64 word" where
  "header_entry_count bytes = le_word (take 8 (drop 8 bytes))"

definition bad_version_file :: "8 word list" where
  "bad_version_file = SAURON_MAGIC @ [2, 0, 0, 0] @ [0, 0, 0, 0, 0, 0, 0, 0]"

definition one_file :: "8 word list option \<Rightarrow> file_system" where
  "one_file content name = (if name = ''snapshot'' then content else None)"

text \<open>
  The operations that cannot bring the score \<open>-32768\<close> in from outside: a \<open>set\<close> with
  another score, and a \<open>load\<close> of a file none of whose 6-byte entry records carries it.
\<close>

definition entry_scores_ok :: "8 word list \<Rightarrow> bool" where
  "entry_scores_ok bytes \<longleftrightarrow>
     (\<forall>i<length bytes. 6 * i + 6 \<le> length bytes \<longrightarrow>
        (le_word (take 2 (drop (6 * i + 4) bytes)) :: 16 word) \<noteq> INT16_MIN)"

fun stores_no_min :: "operation \<Rightarrow> bool" where
  "stores_no_min (Set ip score) = (score \<noteq> INT16_MIN)"
| "stores_no_min (Load filename fs) =
     (case fs filename of None \<Rightarrow> True | Some bytes \<Rightarrow> entry_scores_ok (drop 16 bytes))"
| "stores_no_min opn = True"

definition no_min_cell :: "sauron_ctx \<Rightarrow> bool" where
  "no_min_cell ctx \<longleftrightarrow> (\<forall>ip. cell ctx ip \<noteq> INT16_MIN)"

text \<open>
  The decayed score in the words of the specification: the truncated product \<open>t\<close>,
  snapped to 0 when \<open>|t| \<le> |d|\<close>, with the absolute values taken on the integers.
\<close>

definition spec_decay_value :: "f32 \<Rightarrow> 16 word \<Rightarrow> 16 word \<Rightarrow> 16 word" where
  "spec_decay_value f d v =
     (let t = f32_to_int16 (decay_mul v f)
      in if \<bar>sint t\<bar> \<le> \<bar>sint d\<bar> then 0 else t)"

text \<open>The factors \<open>0.5\<close> and \<open>1.0\<close>.\<close>

definition f32_half :: f32 where "f32_half = Finite False 1 (- 1)"

definition f32_one :: f32 where "f32_one = Finite False 1 0"

text \<open>
  The CSV grammar in the words of the specification: strings of decimal digits and
  their values, octets, dotted-decimal addresses, and the address of four octets.
\<close>

definition dec :: "string \<Rightarrow> nat" where
  "dec s = foldl (\<lambda>acc c. acc * 10 + digit_val c) 0 s"

definition digit_string :: "string \<Rightarrow> bool" where
  "digit_string s \<longleftrightarrow> s \<noteq> [] \<and> list_all is_digit s"

definition octet_string :: "string \<Rightarrow> bool" where
  "octet_string s \<longleftrightarrow> digit_string s \<and> dec s \<le> 255"

definition dotted :: "string \<Rightarrow> string \<Rightarrow> string \<Rightarrow> string \<Rightarrow> string" where
  "dotted o1 o2 o3 o4 = o1 @ ''.'' @ o2 @ ''.'' @ o3 @ ''.'' @ o4"

definition ipv4 :: "nat \<Rightarrow> nat \<Rightarrow> nat \<Rightarrow> nat \<Rightarrow> 32 word" where
  "ipv4 a b c d = of_nat (((a * 256 + b) * 256 + c) * 256 + d)"

text \<open>A context whose environment lets every allocation succeed.\<close>

definition heap_ok :: "sauron_ctx \<Rightarrow> bool" where
  "heap_ok ctx \<longleftrightarrow> (\<forall>n. heap ctx n)"

text \<open>The decimal value of a digit string read after an accumulator, on naturals and on integers.\<close>

definition dec_from :: "nat \<Rightarrow> string \<Rightarrow> nat" where
  "dec_from acc s = foldl (\<lambda>acc c. acc * 10 + digit_val c) acc s"

definition val_from :: "int \<Rightarrow> string \<Rightarrow> int" where
  "val_from v s = foldl (\<lambda>a c. a * 10 + int (digit_val c)) v s"

text \<open>
  A record \<open>ip,value\<close>, the magnitude of the digits \<open>N\<close> saturated at 32767, and what
  the specification says of a record: an absolute record sets the score and counts in
  \<open>sets\<close>, a relative record increments the score and counts in \<open>updates\<close>.
  \<open>counted\<close> is the count of one more line in \<open>lines_processed\<close>.
\<close>

definition record_line :: "string \<Rightarrow> string \<Rightarrow> string \<Rightarrow> string \<Rightarrow> string \<Rightarrow> string" where
  "record_line o1 o2 o3 o4 v = dotted o1 o2 o3 o4 @ '','' @ v"

definition magnitude :: "string \<Rightarrow> 16 word" where
  "magnitude n = word_of_int (min 32767 (int (dec n)))"

definition absolute_set ::
  "32 word \<Rightarrow> 16 word \<Rightarrow> sauron_ctx \<times> sauron_bulk_result \<Rightarrow> sauron_ctx \<times> sauron_bulk_result" where
  "absolute_set ip v st =
     (snd (sauron_set_u32 (fst st) ip v), (snd st)\<lparr>sets := sets (snd st) + 1\<rparr>)"

definition relative_increment ::
  "32 word \<Rightarrow> 16 word \<Rightarrow> sauron_ctx \<times> sauron_bulk_result \<Rightarrow> sauron_ctx \<times> sauron_bulk_result" where
  "relative_increment ip v st =
     (snd (sauron_incr_u32 (fst st) ip v), (snd st)\<lparr>updates := updates (snd st) + 1\<rparr>)"

definition counted :: "sauron_ctx \<times> sauron_bulk_result \<Rightarrow> sauron_ctx \<times> sauron_bulk_result" where
  "counted st = (fst st, (snd st)\<lparr>lines_processed := lines_processed (snd st) + 1\<rparr>)"

text \<open>
  The buffer of three records of the specification, and a record of 64 characters: the
  address \<open>10.0.0.1\<close> and the value 5 written with 55 digits.
\<close>

definition example_buffer :: string where
  "example_buffer =
     ''10.0.0.1,100'' @ [CHR 0x0A] @ ''10.0.0.2,+200'' @ [CHR 0x0A] @ ''10.0.0.3,-50'' @ [CHR 0x0A]"

definition long_value :: string where
  "long_value = ''0000000000000000000000000000000000000000000000000000005''"

definition long_record :: string where
  "long_record = ''10.0.0.1,'' @ long_value"

definition initial_stats :: sauron_bulk_result where
  "initial_stats =
     \<lparr>lines_processed = 0, lines_skipped = 0, sets = 0, updates = 0, parse_errors = 0\<rparr>"

text \<open>
  The entries of an archive in the words of the specification: the non-zero cells of the
  slots in \<open>D\<close>, the entries that the save loop finds in the first \<open>j\<close> hosts of a
  block, and the state of the save loop after the slots in \<open>D\<close>. An entry is applied
  by \<^verbatim>\<open>sauron_load\<close> with a \<open>set\<close>, and is 6 bytes of the file.
\<close>

definition cells_in :: "sauron_ctx \<Rightarrow> (16 word \<times> 8 word) set \<Rightarrow> (32 word \<times> 16 word) set" where
  "cells_in ctx D =
     {(ip, cell ctx ip) | ip. cell ctx ip \<noteq> 0 \<and> (ip_to_prefix16 ip, ip_to_block_idx ip) \<in> D}"

definition host_entries :: "16 word \<Rightarrow> 8 word \<Rightarrow> cidr_block \<Rightarrow> nat \<Rightarrow> (32 word \<times> 16 word) list" where
  "host_entries p b blk j =
     map (\<lambda>h. (mk_ip p b (of_nat h), scores blk (of_nat h)))
       (filter (\<lambda>h. scores blk (of_nat h) \<noteq> 0) [0..<j])"

definition saved :: "sauron_ctx \<Rightarrow> (16 word \<times> 8 word) set \<Rightarrow> (32 word \<times> 16 word) list \<times> 64 word \<Rightarrow> bool" where
  "saved ctx D st \<longleftrightarrow>
     snd st = of_nat (length (fst st)) \<and> distinct (map fst (fst st)) \<and> set (fst st) = cells_in ctx D"

definition apply_entry :: "32 word \<times> 16 word \<Rightarrow> sauron_ctx \<Rightarrow> sauron_ctx" where
  "apply_entry e ctx = (if snd e = 0 then ctx else snd (sauron_set_u32 ctx (fst e) (snd e)))"

definition entry_bytes :: "32 word \<times> 16 word \<Rightarrow> 8 word list" where
  "entry_bytes e = le32_bytes (fst e) @ le16_bytes (snd e)"
section \<open>Basic facts\<close>

subsection \<open>The bitmap filter\<close>

lemma bitmap_test_iff:
  "bitmap_test ctx p = bit (bitmap ctx (unat p div 8)) (unat p mod 8)"
  by (simp add: bitmap_test_def prefix24_to_bitmap_pos_def bit_iff_and_drop_bit_eq_1 and_one_eq mod2_eq_if)

lemma bitmap_pos_inj:
  "unat (p::32 word) div 8 = unat q div 8 \<Longrightarrow> unat p mod 8 = unat q mod 8 \<Longrightarrow> p = q"
  by (metis div_mult_mod_eq word_unat_eq_iff)

lemma bitmap_set_bitmap:
  "bitmap (bitmap_set ctx p) = (bitmap ctx)(unat p div 8 := bitmap ctx (unat p div 8) OR push_bit (unat p mod 8) 1)"
  by (simp add: bitmap_set_def prefix24_to_bitmap_pos_def)

lemma bitmap_clear_bitmap:
  "bitmap (bitmap_clear ctx p) = (bitmap ctx)(unat p div 8 := bitmap ctx (unat p div 8) AND NOT (push_bit (unat p mod 8) 1))"
  by (simp add: bitmap_clear_def prefix24_to_bitmap_pos_def)


lemma bit_or_push1: "n < 8 \<Longrightarrow> bit ((w::8 word) OR push_bit n 1) m = (m = n \<or> bit w m)"
  by (auto simp add: bit_or_iff bit_exp_iff dest: bit_imp_le_length)

lemma bit_and_not_push1: "bit ((w::8 word) AND NOT (push_bit n 1)) m = (m \<noteq> n \<and> bit w m)"
  by (auto simp add: bit_and_iff bit_not_iff bit_exp_iff dest: bit_imp_le_length)

lemma bitmap_test_set: "bitmap_test (bitmap_set ctx p) q = (q = p \<or> bitmap_test ctx q)"
proof (cases "unat q div 8 = unat p div 8")
  case True
  then show ?thesis
    using bitmap_pos_inj[of q p]
    by (simp add: bitmap_test_iff bitmap_set_bitmap bit_or_push1[unfolded push_bit_of_1]) blast
next
  case False
  then have "q \<noteq> p" by auto
  with False show ?thesis
    by (simp add: bitmap_test_iff bitmap_set_bitmap)
qed

lemma bitmap_test_clear: "bitmap_test (bitmap_clear ctx p) q = (q \<noteq> p \<and> bitmap_test ctx q)"
proof (cases "unat q div 8 = unat p div 8")
  case True
  then show ?thesis
    using bitmap_pos_inj[of q p]
    by (simp add: bitmap_test_iff bitmap_clear_bitmap bit_and_not_push1[unfolded push_bit_of_1]) blast
next
  case False
  then have "q \<noteq> p" by auto
  with False show ?thesis
    by (simp add: bitmap_test_iff bitmap_clear_bitmap)
qed

subsection \<open>Address decomposition\<close>

lemma mask8: "(255::32 word) = mask 8" by (simp add: mask_eq_exp_minus_1)

lemma host_idx_alt: "ip_to_host_idx ip = ucast ip"
  unfolding ip_to_host_idx_def mask8
  by (rule bit_word_eqI) (auto simp: bit_simps)

lemma block_idx_alt: "ip_to_block_idx ip = ucast (drop_bit 8 ip)"
  unfolding ip_to_block_idx_def mask8
  by (rule bit_word_eqI) (auto simp: bit_simps)

lemma prefix16_mk_ip: "ip_to_prefix16 (mk_ip p b h) = p"
  unfolding ip_to_prefix16_def mk_ip_def
  by (rule bit_word_eqI) (auto simp: bit_simps dest: bit_imp_le_length)

lemma block_idx_mk_ip: "ip_to_block_idx (mk_ip p b h) = b"
  unfolding block_idx_alt mk_ip_def
  by (rule bit_word_eqI) (auto simp: bit_simps dest: bit_imp_le_length)

lemma host_idx_mk_ip: "ip_to_host_idx (mk_ip p b h) = h"
  unfolding host_idx_alt mk_ip_def
  by (rule bit_word_eqI) (auto simp: bit_simps dest: bit_imp_le_length)

lemma prefix24_mk_ip: "ip_to_prefix24 (mk_ip p b h) = mk_prefix24 p b"
  unfolding ip_to_prefix24_def mk_ip_def mk_prefix24_def
  by (rule bit_word_eqI) (auto simp: bit_simps dest: bit_imp_le_length)

lemma mk_ip_parts: "mk_ip (ip_to_prefix16 ip) (ip_to_block_idx ip) (ip_to_host_idx ip) = ip"
  unfolding ip_to_prefix16_def block_idx_alt host_idx_alt mk_ip_def
  apply (rule bit_word_eqI) 
  subgoal for n
    apply (cases "n < 8"; cases "n < 16")
    apply (auto simp: bit_simps dest: bit_imp_le_length)
    done
  done

lemma mk_prefix24_parts: "mk_prefix24 (ip_to_prefix16 ip) (ip_to_block_idx ip) = ip_to_prefix24 ip"
  unfolding ip_to_prefix16_def block_idx_alt ip_to_prefix24_def mk_prefix24_def
  apply (rule bit_word_eqI) 
  subgoal for n
    apply (cases "n < 8")
    apply (auto simp: bit_simps dest: bit_imp_le_length)
    done
  done

lemma mk_prefix24_hi: "ucast (drop_bit 8 (mk_prefix24 p b)) = p"
  unfolding mk_prefix24_def
  by (rule bit_word_eqI) (auto simp: bit_simps dest: bit_imp_le_length)

lemma mk_prefix24_lo: "ucast (mk_prefix24 p b) = b"
  unfolding mk_prefix24_def
  by (rule bit_word_eqI) (auto simp: bit_simps dest: bit_imp_le_length)

lemma mk_prefix24_inj: "mk_prefix24 p b = mk_prefix24 p' b' \<longleftrightarrow> p = p' \<and> b = b'"
proof
  assume e: "mk_prefix24 p b = mk_prefix24 p' b'"
  have "p = ucast (drop_bit 8 (mk_prefix24 p b))" by (simp only: mk_prefix24_hi)
  also have "\<dots> = p'" unfolding e by (simp only: mk_prefix24_hi)
  finally have 1: "p = p'" .
  have "b = ucast (mk_prefix24 p b)" by (simp only: mk_prefix24_lo)
  also have "\<dots> = b'" unfolding e by (simp only: mk_prefix24_lo)
  finally have 2: "b = b'" .
  from 1 2 show "p = p' \<and> b = b'" by simp
qed simp

subsection \<open>Block lookup and allocation\<close>

lemma block_at_bitmap_set [simp]: "block_at (bitmap_set ctx p) = block_at ctx"
  by (simp add: block_at_def bitmap_set_def fun_eq_iff split: prod.splits)

lemma block_at_bitmap_clear [simp]: "block_at (bitmap_clear ctx p) = block_at ctx"
  by (simp add: block_at_def bitmap_clear_def fun_eq_iff split: prod.splits)

lemma block_at_block_store:
  "block_at (block_store ctx p b blk) p' b' =
     (if block_ptrs ctx p \<noteq> None \<and> p' = p \<and> b' = b then Some blk else block_at ctx p' b')"
  by (auto simp: block_at_def block_store_def split: option.splits)

lemma bitmap_block_store [simp]: "bitmap (block_store ctx p b blk) = bitmap ctx"
  by (simp add: block_store_def split: option.splits)

lemma bitmap_test_block_store [simp]: "bitmap_test (block_store ctx p b blk) q = bitmap_test ctx q"
  by (simp add: bitmap_test_iff)

lemma bitmap_test_cong: "bitmap ctx' = bitmap ctx \<Longrightarrow> bitmap_test ctx' q = bitmap_test ctx q"
  by (simp add: bitmap_test_iff)

text \<open>The fast path and the slow path of get_or_alloc_block, by the state of the slot.\<close>

lemma goab_present:
  "block_at ctx (ip_to_prefix16 ip) (ip_to_block_idx ip) = Some blk \<Longrightarrow>
   get_or_alloc_block ctx ip =
     (Some blk, if bitmap_test ctx (ip_to_prefix24 ip) then ctx else bitmap_set ctx (ip_to_prefix24 ip))"
  by (auto simp: get_or_alloc_block_def block_at_def Let_def split: option.splits)

lemma goab_no_array:
  "block_ptrs ctx (ip_to_prefix16 ip) = None \<Longrightarrow>
   get_or_alloc_block ctx ip =
     (if \<not> heap ctx 0 then (None, ctx\<lparr>heap := (\<lambda>n. heap ctx (Suc n))\<rparr>)
      else if \<not> heap ctx 1 then
        (None, ctx\<lparr>heap := (\<lambda>n. heap ctx (Suc (Suc n))),
                   memory_used := memory_used ctx + sizeof_block_ptr_array,
                   block_ptrs := (block_ptrs ctx)(ip_to_prefix16 ip \<mapsto> (\<lambda>_. None))\<rparr>)
      else (Some empty_block,
            bitmap_set
              (ctx\<lparr>heap := (\<lambda>n. heap ctx (Suc (Suc n))),
                   memory_used := memory_used ctx + sizeof_block_ptr_array + sizeof_cidr_block,
                   block_count := block_count ctx + 1,
                   block_ptrs := (block_ptrs ctx)(ip_to_prefix16 ip \<mapsto> (\<lambda>_. None)(ip_to_block_idx ip \<mapsto> empty_block))\<rparr>)
              (ip_to_prefix24 ip)))"
  by (simp add: get_or_alloc_block_def Let_def alloc_block_ptr_array_def alloc_cidr_block_def
      aligned_alloc_def block_store_def empty_block_def bitmap_set_def split: prod.splits)

lemma goab_no_block:
  "block_ptrs ctx (ip_to_prefix16 ip) = Some arr \<Longrightarrow> arr (ip_to_block_idx ip) = None \<Longrightarrow>
   get_or_alloc_block ctx ip =
     (if \<not> heap ctx 0 then (None, ctx\<lparr>heap := (\<lambda>n. heap ctx (Suc n))\<rparr>)
      else (Some empty_block,
            bitmap_set
              (ctx\<lparr>heap := (\<lambda>n. heap ctx (Suc n)),
                   memory_used := memory_used ctx + sizeof_cidr_block,
                   block_count := block_count ctx + 1,
                   block_ptrs := (block_ptrs ctx)(ip_to_prefix16 ip \<mapsto> arr(ip_to_block_idx ip \<mapsto> empty_block))\<rparr>)
              (ip_to_prefix24 ip)))"
  by (simp add: get_or_alloc_block_def Let_def alloc_block_ptr_array_def alloc_cidr_block_def
      aligned_alloc_def block_store_def empty_block_def bitmap_set_def split: prod.splits)

lemma bitmap_set_fields [simp]:
  "block_ptrs (bitmap_set ctx p) = block_ptrs ctx"
  "score_count (bitmap_set ctx p) = score_count ctx"
  "block_count (bitmap_set ctx p) = block_count ctx"
  "memory_used (bitmap_set ctx p) = memory_used ctx"
  "heap (bitmap_set ctx p) = heap ctx"
  by (simp_all add: bitmap_set_def split: prod.splits)

lemma bitmap_clear_fields [simp]:
  "block_ptrs (bitmap_clear ctx p) = block_ptrs ctx"
  "score_count (bitmap_clear ctx p) = score_count ctx"
  "block_count (bitmap_clear ctx p) = block_count ctx"
  "memory_used (bitmap_clear ctx p) = memory_used ctx"
  "heap (bitmap_clear ctx p) = heap ctx"
  by (simp_all add: bitmap_clear_def split: prod.splits)

lemma block_store_fields [simp]:
  "score_count (block_store ctx p b blk) = score_count ctx"
  "block_count (block_store ctx p b blk) = block_count ctx"
  "memory_used (block_store ctx p b blk) = memory_used ctx"
  "heap (block_store ctx p b blk) = heap ctx"
  by (simp_all add: block_store_def split: option.splits)

lemma bitmap_test_upd [simp]:
  "bitmap_test (ctx\<lparr>block_ptrs := x\<rparr>) q = bitmap_test ctx q"
  "bitmap_test (ctx\<lparr>score_count := sc\<rparr>) q = bitmap_test ctx q"
  "bitmap_test (ctx\<lparr>block_count := bc\<rparr>) q = bitmap_test ctx q"
  "bitmap_test (ctx\<lparr>memory_used := mu\<rparr>) q = bitmap_test ctx q"
  "bitmap_test (ctx\<lparr>heap := h\<rparr>) q = bitmap_test ctx q"
  by (simp_all add: bitmap_test_iff)

lemma block_at_upd [simp]:
  "block_at (ctx\<lparr>bitmap := bm\<rparr>) = block_at ctx"
  "block_at (ctx\<lparr>score_count := sc\<rparr>) = block_at ctx"
  "block_at (ctx\<lparr>block_count := bc\<rparr>) = block_at ctx"
  "block_at (ctx\<lparr>memory_used := mu\<rparr>) = block_at ctx"
  "block_at (ctx\<lparr>heap := h\<rparr>) = block_at ctx"
  by (simp_all add: block_at_def fun_eq_iff)

lemma goab_cases:
  obtains (present) blk where "block_at ctx (ip_to_prefix16 ip) (ip_to_block_idx ip) = Some blk"
  | (no_array) "block_ptrs ctx (ip_to_prefix16 ip) = None"
  | (no_block) arr where "block_ptrs ctx (ip_to_prefix16 ip) = Some arr" "arr (ip_to_block_idx ip) = None"
  by (cases "block_ptrs ctx (ip_to_prefix16 ip)") (auto simp: block_at_def)

lemma goab_Some:
  assumes "get_or_alloc_block ctx ip = (Some blk, ctx1)"
  shows "block_at ctx1 (ip_to_prefix16 ip) (ip_to_block_idx ip) = Some blk"
    and "blk = (case block_at ctx (ip_to_prefix16 ip) (ip_to_block_idx ip) of
                  None \<Rightarrow> empty_block | Some b \<Rightarrow> b)"
    and "bitmap_test ctx1 q = (q = ip_to_prefix24 ip \<or> bitmap_test ctx q)"
    and "(p', b') \<noteq> (ip_to_prefix16 ip, ip_to_block_idx ip) \<Longrightarrow>
           block_at ctx1 p' b' = block_at ctx p' b'"
    and "score_count ctx1 = score_count ctx"
    and "block_ptrs ctx1 (ip_to_prefix16 ip) \<noteq> None"
proof -
  have "block_at ctx1 (ip_to_prefix16 ip) (ip_to_block_idx ip) = Some blk
    \<and> blk = (case block_at ctx (ip_to_prefix16 ip) (ip_to_block_idx ip) of
                  None \<Rightarrow> empty_block | Some b \<Rightarrow> b)
    \<and> bitmap_test ctx1 q = (q = ip_to_prefix24 ip \<or> bitmap_test ctx q)
    \<and> ((p', b') \<noteq> (ip_to_prefix16 ip, ip_to_block_idx ip) \<longrightarrow>
           block_at ctx1 p' b' = block_at ctx p' b')
    \<and> score_count ctx1 = score_count ctx
    \<and> block_ptrs ctx1 (ip_to_prefix16 ip) \<noteq> None"
  proof (cases ctx ip rule: goab_cases)
    case (present b)
    then have "block_ptrs ctx (ip_to_prefix16 ip) \<noteq> None"
      by (auto simp: block_at_def split: option.splits)
    with present assms show ?thesis
      by (auto simp: goab_present bitmap_test_set split: if_splits)
  next
    case no_array
    with assms show ?thesis
      by (auto simp: goab_no_array bitmap_test_set block_at_def split: if_splits)
  next
    case (no_block arr)
    with assms goab_no_block[OF no_block] show ?thesis
      by (auto simp: bitmap_test_set block_at_def split: if_splits)
  qed
  then show "block_at ctx1 (ip_to_prefix16 ip) (ip_to_block_idx ip) = Some blk"
    and "blk = (case block_at ctx (ip_to_prefix16 ip) (ip_to_block_idx ip) of
                  None \<Rightarrow> empty_block | Some b \<Rightarrow> b)"
    and "bitmap_test ctx1 q = (q = ip_to_prefix24 ip \<or> bitmap_test ctx q)"
    and "(p', b') \<noteq> (ip_to_prefix16 ip, ip_to_block_idx ip) \<Longrightarrow>
           block_at ctx1 p' b' = block_at ctx p' b'"
    and "score_count ctx1 = score_count ctx"
    and "block_ptrs ctx1 (ip_to_prefix16 ip) \<noteq> None"
    by blast+
qed

lemma goab_None:
  assumes "get_or_alloc_block ctx ip = (None, ctx1)"
  shows "block_at ctx1 = block_at ctx" and "bitmap ctx1 = bitmap ctx"
    and "score_count ctx1 = score_count ctx"
proof -
  have "block_at ctx1 = block_at ctx \<and> bitmap ctx1 = bitmap ctx \<and> score_count ctx1 = score_count ctx"
  proof (cases ctx ip rule: goab_cases)
    case (present b)
    with assms show ?thesis by (simp add: goab_present)
  next
    case no_array
    with assms show ?thesis
      by (auto simp: goab_no_array block_at_def fun_eq_iff split: if_splits)
  next
    case (no_block arr)
    with assms goab_no_block[OF no_block] show ?thesis
      by (auto simp: block_at_def fun_eq_iff split: if_splits)
  qed
  then show "block_at ctx1 = block_at ctx" and "bitmap ctx1 = bitmap ctx"
    and "score_count ctx1 = score_count ctx" by blast+
qed

subsection \<open>The write path\<close>

lemma ip_eq_iff:
  "ip' = ip \<longleftrightarrow> ip_to_prefix16 ip' = ip_to_prefix16 ip \<and> ip_to_block_idx ip' = ip_to_block_idx ip
     \<and> ip_to_host_idx ip' = ip_to_host_idx ip"
  by (metis mk_ip_parts)

lemma prefix24_eq_iff:
  "ip_to_prefix24 ip' = ip_to_prefix24 ip \<longleftrightarrow>
     ip_to_prefix16 ip' = ip_to_prefix16 ip \<and> ip_to_block_idx ip' = ip_to_block_idx ip"
  by (metis mk_prefix24_parts mk_prefix24_inj)

lemma block_at_store_score:
  "block_ptrs ctx (ip_to_prefix16 ip) \<noteq> None \<Longrightarrow>
   block_at (store_score ctx ip blk old new) p' b' =
     (if p' = ip_to_prefix16 ip \<and> b' = ip_to_block_idx ip
      then Some (blk\<lparr>scores := (scores blk)(ip_to_host_idx ip := new),
                     active_count := (if old = 0 \<and> new \<noteq> 0 then active_count blk + 1
                                      else if old \<noteq> 0 \<and> new = 0 then active_count blk - 1
                                      else active_count blk)\<rparr>)
      else block_at ctx p' b')"
  by (simp add: store_score_def Let_def block_at_block_store)

lemma store_score_fields [simp]:
  "bitmap (store_score ctx ip blk old new) = bitmap ctx"
  "block_count (store_score ctx ip blk old new) = block_count ctx"
  "memory_used (store_score ctx ip blk old new) = memory_used ctx"
  "heap (store_score ctx ip blk old new) = heap ctx"
  "score_count (store_score ctx ip blk old new) =
     (if old = 0 \<and> new \<noteq> 0 then score_count ctx + 1
      else if old \<noteq> 0 \<and> new = 0 then score_count ctx - 1 else score_count ctx)"
  by (simp_all add: store_score_def Let_def)

lemma bitmap_test_store_score [simp]:
  "bitmap_test (store_score ctx ip blk old new) q = bitmap_test ctx q"
  by (simp add: bitmap_test_iff)

lemma cell_goab:
  assumes "get_or_alloc_block ctx ip = (r, ctx1)"
  shows "cell ctx1 = cell ctx"
proof (cases r)
  case None
  with assms show ?thesis by (simp add: cell_def goab_None(1) fun_eq_iff)
next
  case (Some blk)
  show ?thesis
  proof
    fix a
    show "cell ctx1 a = cell ctx a"
    proof (cases "(ip_to_prefix16 a, ip_to_block_idx a) = (ip_to_prefix16 ip, ip_to_block_idx ip)")
      case True
      then show ?thesis
        using goab_Some(1,2)[OF assms[unfolded Some]]
        by (auto simp: cell_def empty_block_def split: option.splits)
    next
      case False
      then show ?thesis
        using goab_Some(4)[OF assms[unfolded Some], of "ip_to_prefix16 a" "ip_to_block_idx a"]
        by (simp add: cell_def)
    qed
  qed
qed

lemma goab_Some_scores:
  assumes "get_or_alloc_block ctx ip = (Some blk, ctx1)"
  shows "scores blk (ip_to_host_idx ip) = cell ctx ip"
  using goab_Some(2)[OF assms]
  by (auto simp: cell_def empty_block_def split: option.splits)

lemma cell_write:
  assumes "get_or_alloc_block ctx ip = (Some blk, ctx1)"
  shows "cell (store_score ctx1 ip blk old new) a = (if a = ip then new else cell ctx a)"
proof -
  note g = goab_Some[OF assms]
  have c: "cell ctx1 = cell ctx" using assms by (rule cell_goab)
  show ?thesis
  proof (cases "ip_to_prefix16 a = ip_to_prefix16 ip \<and> ip_to_block_idx a = ip_to_block_idx ip")
    case True
    then have "cell ctx1 a = scores blk (ip_to_host_idx a)"
      using g(1) by (simp add: cell_def)
    with True show ?thesis
      using g(6) c by (auto simp: cell_def block_at_store_score ip_eq_iff[of a ip])
  next
    case False
    then have "a \<noteq> ip" by auto
    with False show ?thesis
      using g(6) c[symmetric] by (auto simp: cell_def block_at_store_score)
  qed
qed

lemma get_u32_eq_cell:
  "sauron_get_u32 ctx ip = (if bitmap_test ctx (ip_to_prefix24 ip) then cell ctx ip else 0)"
  by (simp add: sauron_get_u32_def get_block_def Let_def cell_def block_at_def split: option.splits)

subsection \<open>The binary32 product of the decay\<close>

lemma bit_length_0 [simp]: "bit_length 0 = 0"
  by (simp add: bit_length.simps)

lemma bit_length_1 [simp]: "bit_length (Suc 0) = Suc 0" "bit_length 1 = Suc 0"
  by (subst bit_length.simps, subst bit_length.simps, simp)+

lemma bit_length_numeral [simp]:
  "bit_length (numeral Num.One) = 1"
  "bit_length (numeral (Num.Bit0 n)) = Suc (bit_length (numeral n))"
  "bit_length (numeral (Num.Bit1 n)) = Suc (bit_length (numeral n))"
proof -
  show "bit_length (numeral Num.One) = 1"
    by simp
  have "numeral (Num.Bit0 n) div (2::nat) = numeral n" by simp
  then show "bit_length (numeral (Num.Bit0 n)) = Suc (bit_length (numeral n))"
    by (subst bit_length.simps) simp
  have "numeral (Num.Bit1 n) div (2::nat) = numeral n" by simp
  then show "bit_length (numeral (Num.Bit1 n)) = Suc (bit_length (numeral n))"
    by (subst bit_length.simps) simp
qed

lemma bit_length_le: "n < 2 ^ b \<Longrightarrow> bit_length n \<le> b"
proof (induction n arbitrary: b rule: bit_length.induct)
  case (1 n)
  show ?case
  proof (cases "n = 0")
    case True
    then show ?thesis by simp
  next
    case False
    with "1.prems" obtain b' where b: "b = Suc b'"
      by (cases b) auto
    with "1.prems" have "n div 2 < 2 ^ b'" by auto
    with "1.IH"[OF False] have "bit_length (n div 2) \<le> b'" by blast
    with False b show ?thesis by (subst bit_length.simps) simp
  qed
qed

text \<open>Rounding to nearest never passes an integer bound.\<close>

lemma round_le:
  fixes n K d :: nat
  assumes "n \<le> K * 2 ^ d"
  shows "(if 2 * (n mod 2 ^ d) > 2 ^ d \<or> (2 * (n mod 2 ^ d) = 2 ^ d \<and> odd (n div 2 ^ d))
          then n div 2 ^ d + 1 else n div 2 ^ d) \<le> K"
proof -
  have q: "n div 2 ^ d \<le> K"
    using div_le_mono[OF assms, of "2 ^ d"] by simp
  show ?thesis
  proof (cases "n div 2 ^ d = K")
    case True
    have "n = (n div 2 ^ d) * 2 ^ d + n mod 2 ^ d" by (rule div_mult_mod_eq[symmetric])
    with True assms have "n mod 2 ^ d = 0" by simp
    with True show ?thesis by simp
  next
    case False
    with q show ?thesis by simp
  qed
qed

lemma decay_trunc_bound:
  assumes "\<not> f32_lt_zero f" and "\<not> f32_gt_one f"
  shows "\<exists>t. 0 \<le> t \<and> t \<le> \<bar>sint v\<bar> \<and>
           f32_to_int16 (decay_mul v f) = word_of_int (if sint v < 0 then - t else t)"
proof (cases f)
  case (Infinity s)
  with assms show ?thesis by (cases s) simp_all
next
  case (Finite s m e)
  define a where "a = nat \<bar>sint v\<bar>"
  have a16: "a \<le> 2 ^ 15"
    using sint_ge[of v] sint_lt[of v] by (simp add: a_def)
  show ?thesis
  proof (cases "m = 0")
    case True
    then have "f32_to_int16 (decay_mul v f) = 0"
      by (simp add: Finite f32_round_def Let_def)
    then show ?thesis by (intro exI[of _ 0]) simp
  next
    case False
    with assms Finite have s: "\<not> s" and le1: "\<not> (if 0 \<le> e then 1 < m * 2 ^ nat e else 2 ^ nat (- e) < m)"
      by auto
    have e0: "e \<le> 0"
    proof (rule ccontr)
      assume "\<not> e \<le> 0"
      then have "0 < nat e" "0 \<le> e" by auto
      then have "(2::nat) \<le> 2 ^ nat e" by (metis One_nat_def Suc_leI power_increasing_iff one_less_numeral_iff power_one_right semiring_norm(76))
      with False have "1 < m * 2 ^ nat e"
        by (metis Suc_lessI less_le_trans mult_eq_1_iff nat_0_less_mult_iff neq0_conv numeral_eq_one_iff one_less_numeral_iff
            semiring_norm(76) semiring_norm(85) zero_less_numeral zero_less_power One_nat_def lessI less_one mult.right_neutral mult_less_cancel1 not_less_iff_gr_or_eq)
      with le1 \<open>0 \<le> e\<close> show False by simp
    qed
    define E where "E = nat (- e)"
    have eE: "e = - int E" using e0 by (simp add: E_def)
    have mE: "m \<le> 2 ^ E"
    proof (cases "e = 0")
      case True
      with le1 have "\<not> 1 < m" by simp
      then show ?thesis by (simp add: E_def True)
    next
      case False
      with e0 le1 show ?thesis by (simp add: E_def)
    qed
    define n where "n = a * m"
    have nE: "n \<le> a * 2 ^ E" using mE by (simp add: n_def)
    define k where "k = max (int (bit_length n) - 24) (max (- 149 - e) 0)"
    define d where "d = nat k"
    have k0: "0 \<le> k" by (simp add: k_def)
    have "n < 2 ^ (16 + E)"
    proof -
      have "n \<le> 2 ^ 15 * 2 ^ E" using nE a16
        by (meson le_trans mult_le_mono1)
      also have "\<dots> < 2 ^ 16 * (2::nat) ^ E" by simp
      finally show ?thesis by (simp add: power_add)
    qed
    then have bl: "bit_length n \<le> 16 + E" by (rule bit_length_le)
    have dE: "d \<le> E"
      using bl by (simp add: d_def k_def eE)
    define q where "q = n div 2 ^ d"
    define r where "r = n mod 2 ^ d"
    define m' where "m' = (if 2 * r > 2 ^ d \<or> (2 * r = 2 ^ d \<and> odd q) then q + 1 else q)"
    have "n \<le> (a * 2 ^ (E - d)) * 2 ^ d"
      using nE dE by (simp add: mult.assoc flip: power_add)
    from round_le[OF this] have m'K: "m' \<le> a * 2 ^ (E - d)"
      unfolding m'_def q_def r_def by (auto split: if_splits)
    have res1: "decay_mul v f = f32_round (sint v < 0) n e"
      using s by (simp add: Finite n_def a_def)
    have res2: "f32_round (sint v < 0) n e =
        (if int (bit_length m') + (e + k) > 128 then Infinity (sint v < 0)
         else Finite (sint v < 0) m' (e + k))"
      unfolding f32_round_def Let_def m'_def q_def r_def d_def k_def by (rule refl)
    note res = res1[unfolded res2]
    define t where "t = (if int (bit_length m') + (e + k) > 128 then 0
                         else if 0 \<le> e + k then int m' * 2 ^ nat (e + k)
                         else int m' div 2 ^ nat (- (e + k)))"
    have ek: "e + k = - int (E - d)"
      using dE k0 by (simp add: eE d_def)
    have t_le: "t \<le> int a"
    proof (cases "E = d")
      case True
      with m'K ek show ?thesis by (simp add: t_def)
    next
      case False
      with dE have lt: "d < E" by simp
      then have neg: "\<not> 0 \<le> e + k" "nat (- (e + k)) = E - d" using ek by simp_all
      have "m' div 2 ^ (E - d) \<le> a"
        using div_le_mono[OF m'K, of "2 ^ (E - d)"] by simp
      then have "int m' div 2 ^ (E - d) \<le> int a"
        by (metis of_nat_le_iff of_nat_numeral of_nat_power zdiv_int)
      with neg show ?thesis by (simp add: t_def)
    qed
    have t_ge: "0 \<le> t"
      by (simp add: t_def pos_imp_zdiv_nonneg_iff)
    have "f32_to_int16 (decay_mul v f) = word_of_int (if sint v < 0 then - t else t)"
      by (simp add: res t_def Let_def)
    with t_le t_ge show ?thesis
      by (intro exI[of _ t]) (simp add: a_def)
  qed
qed

lemma decay_in_range:
  assumes "\<not> f32_lt_zero f" and "\<not> f32_gt_one f"
  shows "\<bar>sint (f32_to_int16 (decay_mul v f))\<bar> \<le> \<bar>sint v\<bar>"
proof -
  from decay_trunc_bound[OF assms, of v] obtain t where
    t: "0 \<le> t" "t \<le> \<bar>sint v\<bar>"
    "f32_to_int16 (decay_mul v f) = word_of_int (if sint v < 0 then - t else t)"
    by blast
  have r: "- 32768 \<le> sint v" "sint v \<le> 32767"
    using sint_ge[of v] sint_lt[of v] by simp_all
  have s: "- 32768 \<le> x \<Longrightarrow> x \<le> 32767 \<Longrightarrow> sint (word_of_int x :: 16 word) = x" for x
    by (simp add: signed_take_bit_int_eq_self sint_sbintrunc')
  show ?thesis
  proof (cases "sint v < 0")
    case True
    with t r have "sint (word_of_int (- t) :: 16 word) = - t" by (intro s) auto
    with True t show ?thesis by simp
  next
    case False
    with t r have "sint (word_of_int t :: 16 word) = t" by (intro s) auto
    with False t show ?thesis by simp
  qed
qed

subsection \<open>The directory walk\<close>

lemma of_nat_inj_8: "i < 256 \<Longrightarrow> j < 256 \<Longrightarrow> (of_nat i :: 8 word) = of_nat j \<Longrightarrow> i = j"
proof -
  assume a: "i < 256" "j < 256" "(of_nat i :: 8 word) = of_nat j"
  from a(3) have "unat (of_nat i :: 8 word) = unat (of_nat j :: 8 word)" by simp
  with a(1,2) show ?thesis by (simp add: unat_of_nat)
qed

lemma of_nat_inj_16: "i < 65536 \<Longrightarrow> j < 65536 \<Longrightarrow> (of_nat i :: 16 word) = of_nat j \<Longrightarrow> i = j"
proof -
  assume a: "i < 65536" "j < 65536" "(of_nat i :: 16 word) = of_nat j"
  from a(3) have "unat (of_nat i :: 16 word) = unat (of_nat j :: 16 word)" by simp
  with a(1,2) show ?thesis by (simp add: unat_of_nat)
qed

lemma of_nat_range_8: "(of_nat ` {..<256}) = (UNIV :: 8 word set)"
proof -
  have "w \<in> of_nat ` {..<256}" for w :: "8 word"
  proof -
    have "unat w < 256" using unsigned_less[of w, where 'a=nat] by simp
    moreover have "of_nat (unat w) = w" by simp
    ultimately show ?thesis by (metis imageI lessThan_iff)
  qed
  then show ?thesis by auto
qed

lemma of_nat_range_16: "(of_nat ` {..<65536}) = (UNIV :: 16 word set)"
proof -
  have "w \<in> of_nat ` {..<65536}" for w :: "16 word"
  proof -
    have "unat w < 65536" using unsigned_less[of w, where 'a=nat] by simp
    moreover have "of_nat (unat w) = w" by simp
    ultimately show ?thesis by (metis imageI lessThan_iff)
  qed
  then show ?thesis by auto
qed

text \<open>The rule of the directory walk: \<open>Q D s\<close> says that \<open>s\<close> is the state after the slots in \<open>D\<close>.\<close>

lemma inner_walk:
  fixes body :: "16 word \<Rightarrow> 8 word \<Rightarrow> 's \<Rightarrow> 's"
  assumes step: "\<And>D b s. (p, b) \<notin> D \<Longrightarrow> Q D s \<Longrightarrow> Q (insert (p, b) D) (body p b s)"
    and "Q D s" and "D \<inter> ({p} \<times> UNIV) = {}" and "j \<le> 256"
  shows "Q (D \<union> {p} \<times> (of_nat ` {..<j})) (fold (\<lambda>block_idx. body p (of_nat block_idx)) [0..<j] s)"
  using \<open>j \<le> 256\<close>
proof (induction j)
  case 0
  with assms show ?case by simp
next
  case (Suc j)
  let ?D = "D \<union> {p} \<times> (of_nat ` {..<j})"
  have neq: "of_nat x \<noteq> (of_nat j :: 8 word)" if "x < j" for x
    using of_nat_inj_8[of x j] that Suc.prems by auto
  have "(of_nat j :: 8 word) \<notin> of_nat ` {..<j}"
  proof
    assume "(of_nat j :: 8 word) \<in> of_nat ` {..<j}"
    then obtain x where "x < j" "(of_nat j :: 8 word) = of_nat x" by auto
    with neq[of x] show False by simp
  qed
  moreover have "(p, of_nat j) \<notin> D"
    using assms(3) by auto
  ultimately have "(p, of_nat j) \<notin> ?D"
    by simp
  moreover have "Q ?D (fold (\<lambda>block_idx. body p (of_nat block_idx)) [0..<j] s)"
    using Suc by simp
  ultimately have "Q (insert (p, of_nat j) ?D)
      (body p (of_nat j) (fold (\<lambda>block_idx. body p (of_nat block_idx)) [0..<j] s))"
    by (rule step)
  moreover have "insert (p, of_nat j) ?D = D \<union> {p} \<times> (of_nat ` {..<Suc j})"
    by (auto simp: lessThan_Suc)
  ultimately show ?case by simp
qed

lemma for_blocks_rule:
  assumes init: "Q {} s"
    and step: "\<And>D p b s. (p, b) \<notin> D \<Longrightarrow> Q D s \<Longrightarrow> Q (insert (p, b) D) (body p b s)"
    and skip: "\<And>D p s. \<not> has_array s p \<Longrightarrow> Q D s \<Longrightarrow> Q (D \<union> {p} \<times> UNIV) s"
  shows "Q UNIV (for_blocks has_array body s)"
proof -
  let ?f = "\<lambda>prefix16 s. if has_array s (of_nat prefix16)
             then fold (\<lambda>block_idx. body (of_nat prefix16) (of_nat block_idx)) [0..<256] s
             else s"
  have "Q ((of_nat ` {..<i}) \<times> UNIV) (fold ?f [0..<i] s)" if "i \<le> 65536" for i
    using that
  proof (induction i)
    case 0
    with init show ?case by simp
  next
    case (Suc i)
    let ?D = "(of_nat ` {..<i}) \<times> (UNIV :: 8 word set)"
    let ?s = "fold ?f [0..<i] s"
    let ?p = "of_nat i :: 16 word"
    have Q: "Q ?D ?s" using Suc by simp
    have neq: "of_nat x \<noteq> ?p" if "x < i" for x
      using of_nat_inj_16[of x i] that Suc.prems by auto
    have disj: "?D \<inter> ({?p} \<times> UNIV) = {}"
      using neq by auto
    have "Q (?D \<union> {?p} \<times> UNIV) (?f i ?s)"
    proof (cases "has_array ?s ?p")
      case True
      have "Q (?D \<union> {?p} \<times> (of_nat ` {..<256}))
              (fold (\<lambda>block_idx. body ?p (of_nat block_idx)) [0..<256] ?s)"
      proof (rule inner_walk[where Q=Q and body=body and p="?p" and D="?D" and s="?s" and j=256])
        show "Q (insert (?p, b) D) (body ?p b s)" if "(?p, b) \<notin> D" "Q D s" for D b s
          using that by (rule step)
      qed (use Q disj in simp_all)
      with True show ?thesis by (simp add: of_nat_range_8)
    next
      case False
      with skip[OF False Q] show ?thesis by simp
    qed
    moreover have "?D \<union> {?p} \<times> UNIV = (of_nat ` {..<Suc i}) \<times> (UNIV :: 8 word set)"
      by (auto simp: lessThan_Suc)
    ultimately show ?case by simp
  qed
  from this[of 65536] show ?thesis
    by (simp add: for_blocks_def of_nat_range_16)
qed

lemma for_blocks_invariant:
  assumes "P s" and "\<And>p b s. P s \<Longrightarrow> P (body p b s)"
  shows "P (for_blocks has_array body s)"
  by (rule for_blocks_rule[where Q="\<lambda>_. P"]) (use assms in auto)

subsection \<open>Set, increment and checked read\<close>

lemma sint_saturating_add: "sint (saturating_add a b) = clamp (sint a + sint b)"
proof -
  have r: "- 32768 \<le> sint a" "sint a \<le> 32767" "- 32768 \<le> sint b" "sint b \<le> 32767"
    using sint_ge[of a] sint_lt[of a] sint_ge[of b] sint_lt[of b] by simp_all
  have s: "- 32767 \<le> v \<Longrightarrow> v \<le> 32767 \<Longrightarrow> sint (word_of_int v :: 16 word) = v" for v
    by (simp add: signed_take_bit_int_eq_self sint_sbintrunc')
  show ?thesis
    using r s[of "sint a + sint b"] by (auto simp: saturating_add_def Let_def SAURON_SCORE_MAX_def SAURON_SCORE_MIN_def
        clamp_def s)
qed

lemma set_u32_ok:
  assumes "get_or_alloc_block ctx ip = (Some blk, ctx1)"
  shows "fst (sauron_set_u32 ctx ip score) = cell ctx ip"
    and "cell (snd (sauron_set_u32 ctx ip score)) a = (if a = ip then score else cell ctx a)"
    and "bitmap_test (snd (sauron_set_u32 ctx ip score)) q = (q = ip_to_prefix24 ip \<or> bitmap_test ctx q)"
  using assms goab_Some_scores[OF assms] cell_write[OF assms] goab_Some(3)[OF assms]
  by (simp_all add: sauron_set_u32_def Let_def)

lemma set_u32_oom:
  assumes "get_or_alloc_block ctx ip = (None, ctx1)"
  shows "sauron_set_u32 ctx ip score = (0, ctx1)"
  using assms by (simp add: sauron_set_u32_def)

lemma incr_u32_ok:
  assumes "get_or_alloc_block ctx ip = (Some blk, ctx1)" and "delta \<noteq> 0"
  shows "fst (sauron_incr_u32 ctx ip delta) = saturating_add (cell ctx ip) delta"
    and "cell (snd (sauron_incr_u32 ctx ip delta)) a =
           (if a = ip then saturating_add (cell ctx ip) delta else cell ctx a)"
    and "bitmap_test (snd (sauron_incr_u32 ctx ip delta)) q = (q = ip_to_prefix24 ip \<or> bitmap_test ctx q)"
  using assms goab_Some_scores[OF assms(1)] cell_write[OF assms(1)] goab_Some(3)[OF assms(1)]
  by (simp_all add: sauron_incr_u32_def Let_def)

lemma goab_after_write:
  assumes "get_or_alloc_block ctx ip = (Some blk, ctx1)"
  shows "fst (get_or_alloc_block (store_score ctx1 ip blk old new) ip) \<noteq> None"
proof -
  note g = goab_Some[OF assms]
  have "block_at (store_score ctx1 ip blk old new) (ip_to_prefix16 ip) (ip_to_block_idx ip) \<noteq> None"
    using g(6) by (simp add: block_at_store_score)
  then obtain b where "block_at (store_score ctx1 ip blk old new) (ip_to_prefix16 ip) (ip_to_block_idx ip) = Some b"
    by blast
  then show ?thesis by (simp add: goab_present)
qed

lemma create_no_oom: "sauron_create no_oom = Some fresh_engine"
  by (simp add: sauron_create_def fresh_engine_def no_oom_def fun_eq_iff)

lemma goab_fresh: "heap ctx 0 \<Longrightarrow> heap ctx 1 \<Longrightarrow> fst (get_or_alloc_block ctx ip) \<noteq> None"
  by (cases ctx ip rule: goab_cases) (simp_all add: goab_present goab_no_array goab_no_block)

lemma ip_10_0_0_1:
  "ip_to_prefix16 0x0A000001 = 0x0A00" "ip_to_block_idx 0x0A000001 = 0"
  "ip_to_host_idx 0x0A000001 = 1" "ip_to_prefix24 0x0A000001 = 0x0A0000"
  by (simp_all add: ip_to_prefix16_def ip_to_block_idx_def ip_to_host_idx_def ip_to_prefix24_def)

lemma get_ex_eq:
  "sauron_get_ex ctx ip s =
     (if sauron_get_u32 ctx ip = 0
      then (SAURON_ERR_INVALID, if get_block ctx ip = None then 0 else s)
      else (SAURON_OK, sauron_get_u32 ctx ip))"
  by (simp add: sauron_get_ex_def sauron_get_u32_def Let_def split: option.splits)

lemma get_after_set_zero: "sauron_get_u32 (snd (sauron_set_u32 ctx a 0)) a = 0"
proof (cases "get_or_alloc_block ctx a")
  case (Pair r c1)
  show ?thesis
  proof (cases r)
    case None
    have "cell c1 a = 0"
      using goab_None(1)[OF Pair[unfolded None]] Pair None
      by (cases ctx a rule: goab_cases) (auto simp: goab_present cell_def block_at_def)
    with Pair None show ?thesis
      by (simp add: sauron_set_u32_def get_u32_eq_cell)
  next
    case (Some blk)
    then show ?thesis
      using set_u32_ok(2)[OF Pair[unfolded Some], of 0 a] by (simp add: get_u32_eq_cell)
  qed
qed

subsection \<open>Counting the non-zero scores\<close>

lemma nonzero_in_le: "nonzero_in blk \<le> 256"
proof -
  have "card {h. scores blk h \<noteq> 0} \<le> card (UNIV :: 8 word set)"
    by (rule card_mono) auto
  then show ?thesis by (simp add: nonzero_in_def card_word)
qed

lemma nonzero_in_upd:
  "nonzero_in (blk\<lparr>scores := (scores blk)(h := v)\<rparr>) =
     (if scores blk h = 0 \<and> v \<noteq> 0 then nonzero_in blk + 1
      else if scores blk h \<noteq> 0 \<and> v = 0 then nonzero_in blk - 1
      else nonzero_in blk)"
proof -
  let ?S = "{x. scores blk x \<noteq> 0}"
  have fin: "finite ?S" by simp
  show ?thesis
  proof (cases "v = 0")
    case True
    have "{x. ((scores blk)(h := v)) x \<noteq> 0} = ?S - {h}"
      using True by auto
    then have "nonzero_in (blk\<lparr>scores := (scores blk)(h := v)\<rparr>) = card (?S - {h})"
      by (simp add: nonzero_in_def)
    also have "\<dots> = (if h \<in> ?S then card ?S - 1 else card ?S)"
      using fin by (simp add: card_Diff_singleton_if)
    finally show ?thesis using True by (simp add: nonzero_in_def)
  next
    case False
    have "{x. ((scores blk)(h := v)) x \<noteq> 0} = insert h ?S"
      using False by auto
    then have "nonzero_in (blk\<lparr>scores := (scores blk)(h := v)\<rparr>) = card (insert h ?S)"
      by (simp add: nonzero_in_def)
    also have "\<dots> = (if h \<in> ?S then card ?S else card ?S + 1)"
      using fin by (simp add: card_insert_if)
    finally show ?thesis using False by (simp add: nonzero_in_def)
  qed
qed

lemma nonzero_in_active [simp]: "nonzero_in (blk\<lparr>active_count := x\<rparr>) = nonzero_in blk"
  by (simp add: nonzero_in_def)

lemma nonzero_in_pos: "scores blk h \<noteq> 0 \<Longrightarrow> 0 < nonzero_in blk"
  unfolding nonzero_in_def by (metis (mono_tags, lifting) card_gt_0_iff empty_iff finite_code mem_Collect_eq)

lemma nonzero_in_0_iff: "nonzero_in blk = 0 \<longleftrightarrow> (\<forall>h. scores blk h = 0)"
  unfolding nonzero_in_def by auto

lemma nonzero_in_empty [simp]: "nonzero_in empty_block = 0"
  by (simp add: nonzero_in_def empty_block_def)

text \<open>Replacing the block of one slot.\<close>

lemma live_total_update:
  assumes other: "\<And>p' b'. (p', b') \<noteq> (p, b) \<Longrightarrow> block_at ctx' p' b' = block_at ctx p' b'"
  shows "live_total ctx' + live_in ctx (p, b) = live_total ctx + live_in ctx' (p, b)"
proof -
  have fin: "finite (UNIV :: (16 word \<times> 8 word) set)" by simp
  have 1: "live_total ctx' = live_in ctx' (p, b) + sum (live_in ctx') (UNIV - {(p, b)})"
    unfolding live_total_def by (rule sum.remove[OF fin]) simp
  have 2: "live_total ctx = live_in ctx (p, b) + sum (live_in ctx) (UNIV - {(p, b)})"
    unfolding live_total_def by (rule sum.remove[OF fin]) simp
  have 3: "sum (live_in ctx') (UNIV - {(p, b)}) = sum (live_in ctx) (UNIV - {(p, b)})"
    by (rule sum.cong) (auto simp: live_in_def other)
  from 1 2 3 show ?thesis by simp
qed

lemma live_in_le_total: "live_in ctx slot \<le> live_total ctx"
  unfolding live_total_def by (rule member_le_sum) auto

lemma counts_ok_update:
  assumes ok: "counts_ok ctx"
    and other: "\<And>p' b'. (p', b') \<noteq> (p, b) \<Longrightarrow> block_at ctx' p' b' = block_at ctx p' b'"
    and new: "block_at ctx' p b = Some blk'"
    and active: "active_count blk' = of_nat (nonzero_in blk')"
    and count: "score_count ctx' + of_nat (live_in ctx (p, b)) = score_count ctx + of_nat (nonzero_in blk')"
  shows "counts_ok ctx'"
proof -
  have "active_count x = of_nat (nonzero_in x)" if "block_at ctx' p' b' = Some x" for p' b' x
  proof (cases "(p', b') = (p, b)")
    case True
    with that new active show ?thesis by simp
  next
    case False
    with that other[OF False] ok show ?thesis by (simp add: counts_ok_def)
  qed
  moreover have "score_count ctx' = of_nat (live_total ctx')"
  proof -
    have l: "live_in ctx' (p, b) = nonzero_in blk'" using new by (simp add: live_in_def)
    have "live_total ctx' + live_in ctx (p, b) = live_total ctx + nonzero_in blk'"
      using live_total_update[of p b ctx' ctx, OF other] l by simp
    then have "(of_nat (live_total ctx') :: 64 word) + of_nat (live_in ctx (p, b))
        = of_nat (live_total ctx) + of_nat (nonzero_in blk')"
      by (metis of_nat_add)
    with count ok have "score_count ctx' + of_nat (live_in ctx (p, b))
        = of_nat (live_total ctx') + of_nat (live_in ctx (p, b))"
      by (simp add: counts_ok_def)
    then show ?thesis by simp
  qed
  ultimately show ?thesis by (simp add: counts_ok_def)
qed

lemma counts_ok_same_blocks:
  "counts_ok ctx \<Longrightarrow> block_at ctx' = block_at ctx \<Longrightarrow> score_count ctx' = score_count ctx \<Longrightarrow>
   counts_ok ctx'"
  by (simp add: counts_ok_def live_total_def live_in_def)

lemma bitmap_ok_same_blocks:
  "bitmap_ok ctx \<Longrightarrow> block_at ctx' = block_at ctx \<Longrightarrow> bitmap ctx' = bitmap ctx \<Longrightarrow> bitmap_ok ctx'"
  by (simp add: bitmap_ok_def bitmap_test_iff)

subsection \<open>The invariant under set, increment and delete\<close>

lemma inv_slot_update:
  assumes inv: "engine_inv ctx"
    and other: "\<And>p' b'. (p', b') \<noteq> (p, b) \<Longrightarrow> block_at ctx' p' b' = block_at ctx p' b'"
    and bits: "\<And>p' b'. (p', b') \<noteq> (p, b) \<Longrightarrow>
                 bitmap_test ctx' (mk_prefix24 p' b') = bitmap_test ctx (mk_prefix24 p' b')"
    and new: "block_at ctx' p b = Some blk'"
    and active: "active_count blk' = of_nat (nonzero_in blk')"
    and count: "score_count ctx' + of_nat (live_in ctx (p, b)) = score_count ctx + of_nat (nonzero_in blk')"
    and bit: "\<not> bitmap_test ctx' (mk_prefix24 p b) \<Longrightarrow> nonzero_in blk' = 0"
  shows "engine_inv ctx'"
proof -
  from inv have c: "counts_ok ctx" and b: "bitmap_ok ctx" by (simp_all add: engine_inv_def)
  have "counts_ok ctx'"
    using c other new active count by (rule counts_ok_update)
  moreover have "bitmap_ok ctx'"
    unfolding bitmap_ok_def
  proof (intro allI impI)
    fix p' b' x
    assume x: "block_at ctx' p' b' = Some x" and t: "\<not> bitmap_test ctx' (mk_prefix24 p' b')"
    show "nonzero_in x = 0"
    proof (cases "(p', b') = (p, b)")
      case True
      with x t new bit show ?thesis by simp
    next
      case False
      with x t other[OF False] bits[OF False] b show ?thesis by (simp add: bitmap_ok_def)
    qed
  qed
  ultimately show ?thesis by (simp add: engine_inv_def)
qed

lemma of_nat_pred: "0 < n \<Longrightarrow> (of_nat (n - Suc 0) :: 'a::len word) = of_nat n - 1"
  by (cases n) simp_all

lemma inv_write:
  assumes inv: "engine_inv ctx" and g: "get_or_alloc_block ctx ip = (Some blk, ctx1)"
  shows "engine_inv (store_score ctx1 ip blk (scores blk (ip_to_host_idx ip)) new)"
proof -
  let ?p = "ip_to_prefix16 ip" and ?b = "ip_to_block_idx ip" and ?h = "ip_to_host_idx ip"
  let ?old = "scores blk ?h"
  let ?ctx2 = "store_score ctx1 ip blk ?old new"
  let ?blk' = "blk\<lparr>scores := (scores blk)(?h := new),
                    active_count := (if ?old = 0 \<and> new \<noteq> 0 then active_count blk + 1
                                     else if ?old \<noteq> 0 \<and> new = 0 then active_count blk - 1
                                     else active_count blk)\<rparr>"
  note gs = goab_Some[OF g]
  from inv have c: "counts_ok ctx" by (simp add: engine_inv_def)
  have live: "live_in ctx (?p, ?b) = nonzero_in blk"
    using gs(2) by (simp add: live_in_def split: option.splits)
  have act: "active_count blk = of_nat (nonzero_in blk)"
    using gs(2) c by (auto simp: counts_ok_def empty_block_def nonzero_in_def split: option.splits)
  have pos: "?old \<noteq> 0 \<Longrightarrow> 0 < nonzero_in blk" by (rule nonzero_in_pos)
  show ?thesis
  proof (rule inv_slot_update[OF inv, where p="?p" and b="?b" and blk'="?blk'"])
    show "block_at ?ctx2 p' b' = block_at ctx p' b'" if "(p', b') \<noteq> (?p, ?b)" for p' b'
      using that gs(4)[OF that] gs(6) by (auto simp: block_at_store_score)
    show "bitmap_test ?ctx2 (mk_prefix24 p' b') = bitmap_test ctx (mk_prefix24 p' b')"
      if "(p', b') \<noteq> (?p, ?b)" for p' b'
    proof -
      have "mk_prefix24 p' b' \<noteq> ip_to_prefix24 ip"
        using that mk_prefix24_inj[of p' b' ?p ?b] by (simp add: mk_prefix24_parts)
      then show ?thesis by (simp add: gs(3))
    qed
    show "block_at ?ctx2 ?p ?b = Some ?blk'"
      using gs(6) by (simp add: block_at_store_score)
    show "active_count ?blk' = of_nat (nonzero_in ?blk')"
      using act pos by (simp add: nonzero_in_upd of_nat_pred)
    show "score_count ?ctx2 + of_nat (live_in ctx (?p, ?b)) = score_count ctx + of_nat (nonzero_in ?blk')"
      using pos by (simp add: live gs(5) nonzero_in_upd of_nat_pred)
    show "nonzero_in ?blk' = 0" if "\<not> bitmap_test ?ctx2 (mk_prefix24 ?p ?b)"
      using that by (simp add: gs(3) mk_prefix24_parts)
  qed
qed

lemma inv_goab_None:
  assumes "engine_inv ctx" and "get_or_alloc_block ctx ip = (None, ctx1)"
  shows "engine_inv ctx1"
  using assms goab_None[OF assms(2)]
  by (auto simp: engine_inv_def intro: counts_ok_same_blocks bitmap_ok_same_blocks)

lemma inv_set: "engine_inv ctx \<Longrightarrow> engine_inv (snd (sauron_set_u32 ctx ip score))"
  by (cases "get_or_alloc_block ctx ip")
    (auto simp: sauron_set_u32_def Let_def inv_write inv_goab_None split: option.splits)

lemma inv_incr: "engine_inv ctx \<Longrightarrow> engine_inv (snd (sauron_incr_u32 ctx ip delta))"
  by (cases "get_or_alloc_block ctx ip")
    (auto simp: sauron_incr_u32_def Let_def inv_write inv_goab_None split: option.splits)

lemma inv_decr: "engine_inv ctx \<Longrightarrow> engine_inv (snd (sauron_decr_u32 ctx ip delta))"
  by (simp add: sauron_decr_u32_def inv_incr)

lemma inv_delete:
  assumes inv: "engine_inv ctx"
  shows "engine_inv (snd (sauron_delete_u32 ctx ip))"
proof (cases "get_block ctx ip")
  case None
  with inv show ?thesis by (simp add: sauron_delete_u32_def)
next
  case (Some blk)
  let ?p = "ip_to_prefix16 ip" and ?b = "ip_to_block_idx ip" and ?h = "ip_to_host_idx ip"
  from Some have bt: "bitmap_test ctx (ip_to_prefix24 ip)" and ba: "block_at ctx ?p ?b = Some blk"
    by (auto simp: get_block_def Let_def block_at_def split: if_splits option.splits)
  from ba have arr: "block_ptrs ctx ?p \<noteq> None" by (auto simp: block_at_def split: option.splits)
  from inv have c: "counts_ok ctx" by (simp add: engine_inv_def)
  show ?thesis
  proof (cases "scores blk ?h = 0")
    case True
    with Some inv show ?thesis by (simp add: sauron_delete_u32_def Let_def)
  next
    case False
    let ?blk' = "blk\<lparr>scores := (scores blk)(?h := 0), active_count := active_count blk - 1\<rparr>"
    let ?ctx' = "block_store (ctx\<lparr>score_count := score_count ctx - 1\<rparr>) ?p ?b ?blk'"
    have pos: "0 < nonzero_in blk" using False by (rule nonzero_in_pos)
    have "engine_inv ?ctx'"
    proof (rule inv_slot_update[OF inv, where p="?p" and b="?b" and blk'="?blk'"])
      show "block_at ?ctx' p' b' = block_at ctx p' b'" if "(p', b') \<noteq> (?p, ?b)" for p' b'
        using that by (auto simp: block_at_block_store)
      show "bitmap_test ?ctx' (mk_prefix24 p' b') = bitmap_test ctx (mk_prefix24 p' b')"
        if "(p', b') \<noteq> (?p, ?b)" for p' b'
        by simp
      show "block_at ?ctx' ?p ?b = Some ?blk'"
        using arr by (simp add: block_at_block_store)
      show "active_count ?blk' = of_nat (nonzero_in ?blk')"
        using c ba pos False by (simp add: counts_ok_def nonzero_in_upd of_nat_pred)
      show "score_count ?ctx' + of_nat (live_in ctx (?p, ?b)) = score_count ctx + of_nat (nonzero_in ?blk')"
        using ba pos False by (simp add: live_in_def nonzero_in_upd of_nat_pred)
      show "nonzero_in ?blk' = 0" if "\<not> bitmap_test ?ctx' (mk_prefix24 ?p ?b)"
        using that bt by (simp add: mk_prefix24_parts)
    qed
    with Some False show ?thesis by (simp add: sauron_delete_u32_def Let_def)
  qed
qed

lemma inv_create: "sauron_create h = Some ctx \<Longrightarrow> engine_inv ctx"
  by (auto simp: sauron_create_def engine_inv_def counts_ok_def bitmap_ok_def block_at_def
      live_total_def live_in_def split: if_splits)

subsection \<open>Clear\<close>

lemma block_at_Some_array: "block_at ctx p b = Some blk \<Longrightarrow> block_ptrs ctx p \<noteq> None"
  by (auto simp: block_at_def split: option.splits)

lemma clear_block_alt:
  "clear_block p b ctx =
     (case block_at ctx p b of
        None \<Rightarrow> ctx
      | Some block \<Rightarrow> bitmap_clear (block_store ctx p b (zeroed block)) (mk_prefix24 p b))"
  by (simp add: clear_block_def block_at_def zeroed_def split: option.splits)

lemma block_at_clear_block:
  "block_at (clear_block p b ctx) p' b' =
     (if (p', b') = (p, b) then map_option zeroed (block_at ctx p b) else block_at ctx p' b')"
proof (cases "block_at ctx p b")
  case None
  then show ?thesis by (auto simp: clear_block_alt)
next
  case (Some blk)
  with block_at_Some_array[OF Some] show ?thesis
    by (auto simp: clear_block_alt block_at_block_store)
qed

lemma clear_block_fields [simp]:
  "heap (clear_block p b ctx) = heap ctx"
  "block_count (clear_block p b ctx) = block_count ctx"
  "memory_used (clear_block p b ctx) = memory_used ctx"
  by (simp_all add: clear_block_alt split: option.splits)

lemma bitmap_test_clear_block:
  "bitmap_test (clear_block p b ctx) q \<Longrightarrow> bitmap_test ctx q"
  by (auto simp: clear_block_alt bitmap_test_clear split: option.splits)

lemma clear_walk:
  fixes ctx :: sauron_ctx
  defines "Q \<equiv> \<lambda>D c. (\<forall>p b. block_at c p b =
                       (if (p, b) \<in> D then map_option zeroed (block_at ctx p b) else block_at ctx p b))
                     \<and> heap c = heap ctx \<and> block_count c = block_count ctx
                     \<and> memory_used c = memory_used ctx
                     \<and> (\<forall>q. bitmap_test c q \<longrightarrow> bitmap_test ctx q)"
  shows "Q UNIV (for_blocks (\<lambda>ctx prefix16. block_ptrs ctx prefix16 \<noteq> None) clear_block ctx)"
proof (rule for_blocks_rule)
  show "Q {} ctx" by (simp add: Q_def)
next
  fix D p b c
  assume "(p, b) \<notin> D" and "Q D c"
  then show "Q (insert (p, b) D) (clear_block p b c)"
    unfolding Q_def
    by (auto simp: block_at_clear_block dest: bitmap_test_clear_block)
next
  fix D p and c :: sauron_ctx
  assume n: "\<not> block_ptrs c p \<noteq> None" and q: "Q D c"
  from n have none: "block_at c p b = None" for b by (simp add: block_at_def)
  have "block_at c p' b' =
      (if (p', b') \<in> D \<union> {p} \<times> UNIV then map_option zeroed (block_at ctx p' b') else block_at ctx p' b')"
    for p' b'
  proof (cases "p' = p")
    case True
    from q have "block_at c p b' =
        (if (p, b') \<in> D then map_option zeroed (block_at ctx p b') else block_at ctx p b')"
      by (simp add: Q_def)
    with none[of b'] have "block_at ctx p b' = None"
      by (auto split: if_splits)
    with True none[of b'] show ?thesis by simp
  next
    case False
    with q show ?thesis by (simp add: Q_def)
  qed
  with q show "Q (D \<union> {p} \<times> UNIV) c"
    unfolding Q_def by blast
qed

lemma clear_all_blocks_spec:
  "block_at (clear_all_blocks ctx) p b = map_option zeroed (block_at ctx p b)"
  "score_count (clear_all_blocks ctx) = 0"
  "heap (clear_all_blocks ctx) = heap ctx"
  "block_count (clear_all_blocks ctx) = block_count ctx"
  "memory_used (clear_all_blocks ctx) = memory_used ctx"
  "bitmap_test (clear_all_blocks ctx) q \<Longrightarrow> bitmap_test ctx q"
  using clear_walk[of ctx] by (simp_all add: clear_all_blocks_def)

lemma nonzero_in_zeroed [simp]: "nonzero_in (zeroed blk) = 0"
  by (simp add: nonzero_in_def zeroed_def)

lemma inv_clear_all_blocks: "engine_inv (clear_all_blocks ctx)"
proof -
  have l: "live_in (clear_all_blocks ctx) slot = 0" for slot
    by (auto simp: live_in_def clear_all_blocks_spec(1) split: option.splits)
  have "counts_ok (clear_all_blocks ctx)"
    unfolding counts_ok_def live_total_def
    by (auto simp: l clear_all_blocks_spec(1,2) zeroed_def nonzero_in_def)
  moreover have "bitmap_ok (clear_all_blocks ctx)"
    unfolding bitmap_ok_def by (auto simp: clear_all_blocks_spec(1))
  ultimately show ?thesis by (simp add: engine_inv_def)
qed

lemma cell_clear_all_blocks [simp]: "cell (clear_all_blocks ctx) ip = 0"
  by (auto simp: cell_def clear_all_blocks_spec(1) zeroed_def split: option.splits)

subsection \<open>Decay: the loop over the hosts of a block\<close>

lemma unat_of_nat_8: "n < 256 \<Longrightarrow> unat (of_nat n :: 8 word) = n"
  by (simp add: unat_of_nat)

lemma unat_eq_of_nat_8: "unat (h :: 8 word) = n \<Longrightarrow> h = of_nat n"
  by auto

lemma decay_zeroed_Suc:
  assumes "n < 256"
  shows "decay_zeroed f a blk (Suc n) =
     (if scores blk (of_nat n) \<noteq> 0 \<and> decay_value f a (scores blk (of_nat n)) = 0
      then insert (of_nat n) (decay_zeroed f a blk n) else decay_zeroed f a blk n)"
  using assms unat_eq_of_nat_8
  by (auto simp: decay_zeroed_def less_Suc_eq unat_of_nat_8)

lemma decay_changed_Suc:
  assumes "n < 256"
  shows "decay_changed f a blk (Suc n) =
     (if decay_value f a (scores blk (of_nat n)) \<noteq> scores blk (of_nat n)
      then insert (of_nat n) (decay_changed f a blk n) else decay_changed f a blk n)"
  using assms unat_eq_of_nat_8
  by (auto simp: decay_changed_def less_Suc_eq unat_of_nat_8)

lemma not_in_upto:
  assumes "n < 256"
  shows "of_nat n \<notin> decay_zeroed f a blk n" "of_nat n \<notin> decay_changed f a blk n"
  using assms by (simp_all add: decay_zeroed_def decay_changed_def unat_of_nat_8)

lemma card_insert_new: "finite A \<Longrightarrow> x \<notin> A \<Longrightarrow> (of_nat (card (insert x A)) :: 'a::len word) = of_nat (card A) + 1"
  by simp

lemma scores_upto_Suc:
  assumes "n < 256"
  shows "(\<lambda>h::8 word. if unat h < Suc n then g h else k h) =
         (\<lambda>h. if unat h < n then g h else k h)(of_nat n := g (of_nat n))"
  using assms unat_eq_of_nat_8
  by (auto simp: fun_eq_iff less_Suc_eq unat_of_nat_8)

lemma decay_value_nz:
  "v \<noteq> 0 \<Longrightarrow> decay_value f a v =
     (let new_score = f32_to_int16 (decay_mul v f)
      in if 0 \<le> sint new_score \<and> sint new_score \<le> sint a then 0
         else if sint new_score < 0 \<and> - sint a \<le> sint new_score then 0
         else new_score)"
  by (simp add: decay_value_def)

lemma decay_host_alt:
  "decay_host f a host_idx (block, c, m) =
     (let old_score = scores block (of_nat host_idx);
          new_score = decay_value f a old_score
      in if new_score \<noteq> old_score then
           (if new_score = 0 then
              (block\<lparr>scores := (scores block)(of_nat host_idx := new_score),
                     active_count := active_count block - 1\<rparr>, c - 1, m + 1)
            else (block\<lparr>scores := (scores block)(of_nat host_idx := new_score)\<rparr>, c, m + 1))
         else (block, c, m))"
proof (cases "scores block (of_nat host_idx) = 0")
  case True
  then show ?thesis by (simp add: decay_host_def decay_value_def)
next
  case False
  then show ?thesis
    by (simp add: decay_host_def decay_value_nz Let_def)
qed

lemma decay_host_step:
  assumes n: "n < 256"
  shows "decay_host f a n (decay_state f a blk c m n) = decay_state f a blk c m (Suc n)"
proof -
  let ?h = "of_nat n :: 8 word"
  have fz: "finite (decay_zeroed f a blk n)" and fc: "finite (decay_changed f a blk n)" by simp_all
  note ni = not_in_upto[OF n, of f a blk]
  have old: "(if unat ?h < n then decay_value f a (scores blk ?h) else scores blk ?h) = scores blk ?h"
    using n by (simp add: unat_of_nat_8)
  have dv0: "scores blk ?h = 0 \<Longrightarrow> decay_value f a (scores blk ?h) = 0"
    by (simp add: decay_value_def)
  have un: "unat ?h = n" using n by (simp add: unat_of_nat_8)
  have triv: "(\<lambda>h. if unat h < n then decay_value f a (scores blk h) else scores blk h)
                (?h := scores blk ?h)
              = (\<lambda>h. if unat h < n then decay_value f a (scores blk h) else scores blk h)"
    by (rule fun_upd_idem) (simp add: un)
  show ?thesis
  proof (cases "decay_value f a (scores blk ?h) = scores blk ?h")
    case True
    then show ?thesis
      using ni dv0
      by (simp add: triv decay_state_def decay_host_alt Let_def un decay_zeroed_Suc[OF n]
          decay_changed_Suc[OF n] scores_upto_Suc[OF n])
  next
    case False
    then have nz: "scores blk ?h \<noteq> 0" using dv0 by auto
    show ?thesis
    proof (cases "decay_value f a (scores blk ?h) = 0")
      case True
      with False nz show ?thesis
        using ni fz fc
        by (simp add: decay_state_def decay_host_alt Let_def un decay_zeroed_Suc[OF n]
            decay_changed_Suc[OF n] scores_upto_Suc[OF n])
    next
      case z: False
      with False nz show ?thesis
        using ni fz fc
        by (simp add: decay_state_def decay_host_alt Let_def un decay_zeroed_Suc[OF n]
            decay_changed_Suc[OF n] scores_upto_Suc[OF n])
    qed
  qed
qed

lemma decay_state_0: "decay_state f a blk c m 0 = (blk, c, m)"
  by (simp add: decay_state_def decay_zeroed_def decay_changed_def)

lemma decay_hosts:
  "n \<le> 256 \<Longrightarrow> fold (decay_host f a) [0..<n] (blk, c, m) = decay_state f a blk c m n"
proof (induction n)
  case 0
  then show ?case by (simp add: decay_state_0)
next
  case (Suc n)
  then show ?case by (simp add: decay_host_step)
qed

subsection \<open>Decay: one block\<close>

lemma decay_value_0 [simp]: "decay_value f a 0 = 0"
  by (simp add: decay_value_def)

lemma fst_decay_state:
  "fst (decay_state f a blk c m n) =
     blk\<lparr>scores := (\<lambda>h. if unat h < n then decay_value f a (scores blk h) else scores blk h),
         active_count := active_count blk - of_nat (card (decay_zeroed f a blk n))\<rparr>"
  by (simp add: decay_state_def)

lemma unat_lt_256 [simp]: "unat (h :: 8 word) < 256"
  using unsigned_less[of h, where 'a=nat] by simp

lemma scores_decay_state_256 [simp]:
  "scores (fst (decay_state f a blk c m 256)) h = decay_value f a (scores blk h)"
  by (simp add: fst_decay_state)

lemma nonzero_in_decay_state:
  "nonzero_in (fst (decay_state f a blk c m 256)) + card (decay_zeroed f a blk 256) = nonzero_in blk"
proof -
  let ?A = "{h. decay_value f a (scores blk h) \<noteq> 0}" and ?Z = "decay_zeroed f a blk 256"
  have "{h. scores blk h \<noteq> 0} = ?A \<union> ?Z"
    by (auto simp: decay_zeroed_def)
  moreover have "?A \<inter> ?Z = {}" by (auto simp: decay_zeroed_def)
  ultimately have "card {h. scores blk h \<noteq> 0} = card ?A + card ?Z"
    by (simp add: card_Un_disjoint)
  then show ?thesis by (simp add: nonzero_in_def)
qed

lemma decay_block_alt:
  "decay_block f a p b (ctx, m) =
     (if \<not> bitmap_test ctx (mk_prefix24 p b) then (ctx, m)
      else case block_at ctx p b of
             None \<Rightarrow> (ctx, m)
           | Some blk \<Rightarrow>
               if active_count blk = 0 then (bitmap_clear ctx (mk_prefix24 p b), m)
               else
                 (if active_count (fst (decay_state f a blk (score_count ctx) m 256)) = 0
                  then bitmap_clear
                         (block_store (ctx\<lparr>score_count := fst (snd (decay_state f a blk (score_count ctx) m 256))\<rparr>)
                            p b (fst (decay_state f a blk (score_count ctx) m 256)))
                         (mk_prefix24 p b)
                  else block_store (ctx\<lparr>score_count := fst (snd (decay_state f a blk (score_count ctx) m 256))\<rparr>)
                         p b (fst (decay_state f a blk (score_count ctx) m 256)),
                  snd (snd (decay_state f a blk (score_count ctx) m 256))))"
  by (simp add: decay_block_def Let_def block_at_def decay_hosts split: option.splits prod.splits)

lemma fst_decay_state_indep:
  "fst (decay_state f a blk c m n) = fst (decay_state f a blk 0 0 n)"
  by (simp add: decay_state_def)

lemma block_at_decay_block:
  "block_at (fst (decay_block f a p b (ctx, m))) p' b' =
     (if (p', b') = (p, b)
      then map_option (decayed f a (bitmap_test ctx (mk_prefix24 p b))) (block_at ctx p b)
      else block_at ctx p' b')"
proof (cases "block_at ctx p b")
  case None
  then show ?thesis by (auto simp: decay_block_alt)
next
  case (Some blk)
  with block_at_Some_array[OF Some] show ?thesis
    using fst_decay_state_indep[of f a blk "score_count ctx" m 256]
    by (auto simp: decay_block_alt block_at_block_store decayed_def)
qed

lemma bitmap_test_decay_block:
  "bitmap_test (fst (decay_block f a p b (ctx, m))) q =
     (bitmap_test ctx q \<and>
      (q = mk_prefix24 p b \<longrightarrow>
         (case block_at ctx p b of
            None \<Rightarrow> True
          | Some blk \<Rightarrow> active_count (decayed f a True blk) \<noteq> 0)))"
proof (cases "block_at ctx p b")
  case None
  then show ?thesis by (auto simp: decay_block_alt)
next
  case (Some blk)
  then show ?thesis
    using fst_decay_state_indep[of f a blk "score_count ctx" m 256]
    by (auto simp: decay_block_alt bitmap_test_clear decayed_def)
qed

lemma decay_block_fields [simp]:
  "heap (fst (decay_block f a p b (ctx, m))) = heap ctx"
  "block_count (fst (decay_block f a p b (ctx, m))) = block_count ctx"
  "memory_used (fst (decay_block f a p b (ctx, m))) = memory_used ctx"
  by (simp_all add: decay_block_alt split: option.splits)

lemma of_nat_eq_0_small: "n \<le> 256 \<Longrightarrow> (of_nat n :: 32 word) = 0 \<Longrightarrow> n = 0"
proof -
  assume a: "n \<le> 256" "(of_nat n :: 32 word) = 0"
  from a(2) have "unat (of_nat n :: 32 word) = 0" by simp
  with a(1) show ?thesis by (simp add: unat_of_nat)
qed

lemma score_count_decay_block:
  "score_count (fst (decay_block f a p b (ctx, m))) =
     (case block_at ctx p b of
        None \<Rightarrow> score_count ctx
      | Some blk \<Rightarrow>
          if bitmap_test ctx (mk_prefix24 p b) \<and> active_count blk \<noteq> 0
          then score_count ctx - of_nat (card (decay_zeroed f a blk 256))
          else score_count ctx)"
  by (auto simp: decay_block_alt decay_state_def split: option.splits)

lemma inv_decay_block:
  assumes inv: "engine_inv ctx"
  shows "engine_inv (fst (decay_block f a p b (ctx, m)))"
proof (cases "block_at ctx p b")
  case None
  then show ?thesis using inv by (simp add: decay_block_alt)
next
  case (Some blk)
  let ?ctx' = "fst (decay_block f a p b (ctx, m))"
  let ?bit = "bitmap_test ctx (mk_prefix24 p b)"
  let ?blk' = "decayed f a ?bit blk"
  from inv have c: "counts_ok ctx" and bo: "bitmap_ok ctx" by (simp_all add: engine_inv_def)
  have act: "active_count blk = of_nat (nonzero_in blk)"
    using c Some by (simp add: counts_ok_def)
  have nz: "nonzero_in (fst (decay_state f a blk 0 0 256)) + card (decay_zeroed f a blk 256) = nonzero_in blk"
    by (rule nonzero_in_decay_state)
  have act': "active_count ?blk' = of_nat (nonzero_in ?blk')"
  proof (cases "?bit \<and> active_count blk \<noteq> 0")
    case True
    have "(of_nat (nonzero_in blk) :: 32 word) =
        of_nat (nonzero_in (fst (decay_state f a blk 0 0 256)) + card (decay_zeroed f a blk 256))"
      by (simp only: nz)
    then have e: "(of_nat (nonzero_in blk) :: 32 word) =
        of_nat (nonzero_in (fst (decay_state f a blk 0 0 256))) + of_nat (card (decay_zeroed f a blk 256))"
      by (simp only: of_nat_add)
    have 1: "?blk' = fst (decay_state f a blk 0 0 256)"
      using True by (simp add: decayed_def)
    have 2: "active_count (fst (decay_state f a blk 0 0 256)) =
        active_count blk - of_nat (card (decay_zeroed f a blk 256))"
      by (simp add: fst_decay_state)
    have 3: "active_count blk - of_nat (card (decay_zeroed f a blk 256)) =
        of_nat (nonzero_in (fst (decay_state f a blk 0 0 256)))"
      unfolding act e by simp
    show ?thesis unfolding 1 2 by (rule 3)
  next
    case False
    with act show ?thesis by (auto simp: decayed_def)
  qed
  show ?thesis
  proof (rule inv_slot_update[OF inv, where p=p and b=b and blk'="?blk'"])
    show "block_at ?ctx' p' b' = block_at ctx p' b'" if "(p', b') \<noteq> (p, b)" for p' b'
      using that by (auto simp: block_at_decay_block)
    show "bitmap_test ?ctx' (mk_prefix24 p' b') = bitmap_test ctx (mk_prefix24 p' b')"
      if "(p', b') \<noteq> (p, b)" for p' b'
      using that by (auto simp: bitmap_test_decay_block mk_prefix24_inj)
    show "block_at ?ctx' p b = Some ?blk'"
      using Some by (simp add: block_at_decay_block)
    show "active_count ?blk' = of_nat (nonzero_in ?blk')" by (rule act')
    show "score_count ?ctx' + of_nat (live_in ctx (p, b)) = score_count ctx + of_nat (nonzero_in ?blk')"
    proof (cases "?bit \<and> active_count blk \<noteq> 0")
      case True
      have "(of_nat (nonzero_in blk) :: 64 word) =
          of_nat (nonzero_in (fst (decay_state f a blk 0 0 256)) + card (decay_zeroed f a blk 256))"
        by (simp only: nz)
      then have e: "(of_nat (nonzero_in blk) :: 64 word) =
          of_nat (nonzero_in (fst (decay_state f a blk 0 0 256))) + of_nat (card (decay_zeroed f a blk 256))"
        by (simp only: of_nat_add)
      have 1: "?blk' = fst (decay_state f a blk 0 0 256)"
        using True by (simp add: decayed_def)
      have 2: "score_count ?ctx' = score_count ctx - of_nat (card (decay_zeroed f a blk 256))"
        using True Some by (simp add: score_count_decay_block)
      have 3: "live_in ctx (p, b) = nonzero_in blk"
        using Some by (simp add: live_in_def)
      show ?thesis unfolding 1 2 3 e by simp
    next
      case False
      with Some show ?thesis
        by (auto simp: score_count_decay_block live_in_def decayed_def)
    qed
    show "nonzero_in ?blk' = 0" if nb: "\<not> bitmap_test ?ctx' (mk_prefix24 p b)"
    proof (cases ?bit)
      case False
      with bo Some show ?thesis by (simp add: bitmap_ok_def decayed_def)
    next
      case True
      with nb Some have "active_count (decayed f a True blk) = 0"
        by (simp add: bitmap_test_decay_block)
      with True act' have "(of_nat (nonzero_in ?blk') :: 32 word) = 0" by simp
      then show ?thesis by (rule of_nat_eq_0_small[OF nonzero_in_le])
    qed
  qed
qed

subsection \<open>Decay: the whole table\<close>

lemma sauron_decay_rejected:
  "f32_lt_zero f \<or> f32_gt_one f \<Longrightarrow> sauron_decay ctx f d = (0, ctx)"
  by (simp add: sauron_decay_def)

lemma sauron_decay_accepted:
  "\<not> f32_lt_zero f \<Longrightarrow> \<not> f32_gt_one f \<Longrightarrow>
   snd (sauron_decay ctx f d) =
     fst (for_blocks (\<lambda>st prefix16. block_ptrs (fst st) prefix16 \<noteq> None)
            (decay_block f (abs_deadzone d)) (ctx, 0))"
  by (simp add: sauron_decay_def abs_deadzone_def Let_def split: prod.splits)

lemma inv_decay:
  assumes "engine_inv ctx"
  shows "engine_inv (snd (sauron_decay ctx f d))"
proof (cases "f32_lt_zero f \<or> f32_gt_one f")
  case True
  with assms show ?thesis by (simp add: sauron_decay_rejected)
next
  case False
  have "engine_inv (fst (for_blocks (\<lambda>st prefix16. block_ptrs (fst st) prefix16 \<noteq> None)
            (decay_block f (abs_deadzone d)) (ctx, 0)))"
  proof (rule for_blocks_invariant[where P="\<lambda>s. engine_inv (fst s)"])
    show "engine_inv (fst (ctx, 0::64 word))" using assms by simp
    show "engine_inv (fst (decay_block f (abs_deadzone d) p b s))" if "engine_inv (fst s)" for p b s
      using inv_decay_block[OF that, of f "abs_deadzone d" p b "snd s"] by simp
  qed
  with False show ?thesis by (simp add: sauron_decay_accepted)
qed

lemma decay_walk:
  fixes ctx :: sauron_ctx and f :: f32 and a :: "16 word"
  defines "Q \<equiv> \<lambda>D s. (\<forall>p b. block_at (fst s) p b =
                       (if (p, b) \<in> D
                        then map_option (decayed f a (bitmap_test ctx (mk_prefix24 p b))) (block_at ctx p b)
                        else block_at ctx p b))
                     \<and> (\<forall>p b. (p, b) \<notin> D \<longrightarrow>
                          bitmap_test (fst s) (mk_prefix24 p b) = bitmap_test ctx (mk_prefix24 p b))
                     \<and> heap (fst s) = heap ctx \<and> block_count (fst s) = block_count ctx
                     \<and> memory_used (fst s) = memory_used ctx"
  shows "Q UNIV (for_blocks (\<lambda>st prefix16. block_ptrs (fst st) prefix16 \<noteq> None)
                  (decay_block f a) (ctx, m0))"
proof (rule for_blocks_rule)
  show "Q {} (ctx, m0)" by (simp add: Q_def)
next
  fix D p b and s :: "sauron_ctx \<times> 64 word"
  assume nd: "(p, b) \<notin> D" and q: "Q D s"
  obtain c m where s: "s = (c, m)" by (cases s)
  from q nd have same: "block_at c p b = block_at ctx p b"
    and bit: "bitmap_test c (mk_prefix24 p b) = bitmap_test ctx (mk_prefix24 p b)"
    by (simp_all add: Q_def s)
  show "Q (insert (p, b) D) (decay_block f a p b s)"
    unfolding Q_def s
  proof (intro conjI allI impI)
    fix p' b'
    show "block_at (fst (decay_block f a p b (c, m))) p' b' =
        (if (p', b') \<in> insert (p, b) D
         then map_option (decayed f a (bitmap_test ctx (mk_prefix24 p' b'))) (block_at ctx p' b')
         else block_at ctx p' b')"
      using q same bit by (auto simp: block_at_decay_block Q_def s)
  next
    fix p' b'
    assume "(p', b') \<notin> insert (p, b) D"
    then show "bitmap_test (fst (decay_block f a p b (c, m))) (mk_prefix24 p' b') =
        bitmap_test ctx (mk_prefix24 p' b')"
      using q by (auto simp: bitmap_test_decay_block mk_prefix24_inj Q_def s)
  qed (use q in \<open>simp_all add: Q_def s\<close>)
next
  fix D p and s :: "sauron_ctx \<times> 64 word"
  assume n: "\<not> block_ptrs (fst s) p \<noteq> None" and q: "Q D s"
  from n have none: "block_at (fst s) p b = None" for b by (simp add: block_at_def)
  have "block_at (fst s) p' b' =
      (if (p', b') \<in> D \<union> {p} \<times> UNIV
       then map_option (decayed f a (bitmap_test ctx (mk_prefix24 p' b'))) (block_at ctx p' b')
       else block_at ctx p' b')"
    for p' b'
  proof (cases "p' = p")
    case True
    from q have "block_at (fst s) p b' =
        (if (p, b') \<in> D
         then map_option (decayed f a (bitmap_test ctx (mk_prefix24 p b'))) (block_at ctx p b')
         else block_at ctx p b')"
      by (simp add: Q_def)
    with none[of b'] have "block_at ctx p b' = None"
      by (auto split: if_splits)
    with True none[of b'] show ?thesis by simp
  next
    case False
    with q show ?thesis by (simp add: Q_def)
  qed
  with q show "Q (D \<union> {p} \<times> UNIV) s"
    unfolding Q_def by auto
qed

lemma sauron_decay_spec:
  assumes "\<not> f32_lt_zero f" and "\<not> f32_gt_one f"
  shows "block_at (snd (sauron_decay ctx f d)) p b =
           map_option (decayed f (abs_deadzone d) (bitmap_test ctx (mk_prefix24 p b))) (block_at ctx p b)"
    and "heap (snd (sauron_decay ctx f d)) = heap ctx"
    and "block_count (snd (sauron_decay ctx f d)) = block_count ctx"
    and "memory_used (snd (sauron_decay ctx f d)) = memory_used ctx"
  using decay_walk[of f "abs_deadzone d" ctx 0] assms
  by (simp_all add: sauron_decay_accepted)

lemma get_eq_cell:
  assumes "engine_inv ctx"
  shows "sauron_get_u32 ctx ip = cell ctx ip"
proof (cases "bitmap_test ctx (ip_to_prefix24 ip)")
  case True
  then show ?thesis by (simp add: get_u32_eq_cell)
next
  case False
  have "cell ctx ip = 0"
  proof (cases "block_at ctx (ip_to_prefix16 ip) (ip_to_block_idx ip)")
    case None
    then show ?thesis by (simp add: cell_def)
  next
    case (Some blk)
    from assms have "bitmap_ok ctx" by (simp add: engine_inv_def)
    with Some False have "nonzero_in blk = 0"
      by (simp add: bitmap_ok_def mk_prefix24_parts)
    with Some show ?thesis by (simp add: cell_def nonzero_in_0_iff)
  qed
  with False show ?thesis by (simp add: get_u32_eq_cell)
qed

lemma cell_decay:
  assumes inv: "engine_inv ctx" and ok: "\<not> f32_lt_zero f" "\<not> f32_gt_one f"
  shows "cell (snd (sauron_decay ctx f d)) ip = decay_value f (abs_deadzone d) (cell ctx ip)"
proof (cases "block_at ctx (ip_to_prefix16 ip) (ip_to_block_idx ip)")
  case None
  then show ?thesis by (simp add: cell_def sauron_decay_spec(1)[OF ok])
next
  case (Some blk)
  from inv have c: "counts_ok ctx" and bo: "bitmap_ok ctx" by (simp_all add: engine_inv_def)
  let ?bit = "bitmap_test ctx (mk_prefix24 (ip_to_prefix16 ip) (ip_to_block_idx ip))"
  show ?thesis
  proof (cases "?bit \<and> active_count blk \<noteq> 0")
    case True
    with Some show ?thesis
      by (simp add: cell_def sauron_decay_spec(1)[OF ok] decayed_def)
  next
    case False
    have "nonzero_in blk = 0"
    proof (cases ?bit)
      case True
      with False have "active_count blk = 0" by simp
      with c Some have "(of_nat (nonzero_in blk) :: 32 word) = 0" by (simp add: counts_ok_def)
      then show ?thesis by (rule of_nat_eq_0_small[OF nonzero_in_le])
    next
      case False
      with bo Some show ?thesis by (simp add: bitmap_ok_def)
    qed
    then have "scores blk h = 0" for h by (simp add: nonzero_in_0_iff)
    with False Some show ?thesis
      by (auto simp: cell_def sauron_decay_spec(1)[OF ok] decayed_def)
  qed
qed

subsection \<open>The invariant holds in every reachable state\<close>

lemma fold_invariant:
  assumes "P s" and "\<And>x s. P s \<Longrightarrow> P (f x s)"
  shows "P (fold f xs s)"
  using assms(1) by (induction xs arbitrary: s) (simp_all add: assms(2))

lemma inv_bulk_apply: "engine_inv (fst st) \<Longrightarrow> engine_inv (fst (bulk_apply line st))"
  by (cases st) (auto simp: bulk_apply_def inv_set inv_incr split: option.splits)

lemma inv_bulk_buffer_line: "engine_inv (fst st) \<Longrightarrow> engine_inv (fst (bulk_buffer_line line st))"
  using inv_bulk_apply[of "(fst st, (snd st)\<lparr>lines_processed := lines_processed (snd st) + 1\<rparr>)"]
  by (cases st) (auto simp: bulk_buffer_line_def Let_def)

lemma inv_bulk_file_line: "engine_inv (fst st) \<Longrightarrow> engine_inv (fst (bulk_file_line line st))"
  using inv_bulk_apply[of "(fst st, (snd st)\<lparr>lines_processed := lines_processed (snd st) + 1\<rparr>)"]
  by (cases st) (auto simp: bulk_file_line_def Let_def)

lemma inv_bulk_load_buffer:
  assumes "engine_inv ctx"
  shows "engine_inv (fst (snd (sauron_bulk_load_buffer ctx data)))"
proof -
  have "engine_inv (fst (fold bulk_buffer_line (buffer_lines data) (ctx, s0)))" for s0
    by (rule fold_invariant[where P="\<lambda>s. engine_inv (fst s)"])
      (simp_all add: assms inv_bulk_buffer_line)
  then show ?thesis
    by (simp add: sauron_bulk_load_buffer_def split: prod.splits)
qed

lemma inv_bulk_load:
  assumes "engine_inv ctx"
  shows "engine_inv (fst (snd (sauron_bulk_load ctx file ok)))"
proof -
  have "engine_inv (fst (fold bulk_file_line (file_lines content) (ctx, s0)))" for s0 content
    by (rule fold_invariant[where P="\<lambda>s. engine_inv (fst s)"])
      (simp_all add: assms inv_bulk_file_line)
  then show ?thesis
    using assms
    by (auto simp: sauron_bulk_load_def split: prod.splits option.splits) (metis fst_conv)
qed

lemma inv_incr_batch:
  assumes "engine_inv ctx"
  shows "engine_inv (snd (sauron_incr_batch ctx batch))"
  unfolding sauron_incr_batch_def
  by (rule fold_invariant[where P="\<lambda>s. engine_inv (snd s)"])
    (auto simp: assms inv_incr split: prod.splits)

lemma inv_load_entries:
  "engine_inv ctx \<Longrightarrow> engine_inv (snd (load_entries n bytes ctx))"
  by (induction n arbitrary: bytes ctx) (simp_all add: Let_def inv_set)

lemma inv_load: "engine_inv ctx \<Longrightarrow> engine_inv (snd (sauron_load ctx filename fs))"
  by (auto simp: sauron_load_def inv_load_entries inv_clear_all_blocks split: option.splits)

lemma inv_clear: "engine_inv (snd (sauron_clear ctx))"
  by (simp add: sauron_clear_def inv_clear_all_blocks)

lemma inv_apply_op: "engine_inv ctx \<Longrightarrow> engine_inv (apply_op opn ctx)"
  by (cases opn)
    (simp_all add: inv_set inv_incr inv_decr inv_delete inv_incr_batch inv_decay inv_clear
      inv_load inv_bulk_load inv_bulk_load_buffer)

lemma reachable_by_inv: "reachable_by ok ctx \<Longrightarrow> engine_inv ctx"
  by (induction rule: reachable_by.induct) (simp_all add: inv_create inv_apply_op)

lemma reachable_inv: "reachable ctx \<Longrightarrow> engine_inv ctx"
  unfolding reachable_def by (rule reachable_by_inv)

text \<open>The table total counts the addresses with a non-zero stored score.\<close>

lemma mk_ip_inj: "mk_ip p b h = mk_ip p' b' h' \<longleftrightarrow> p = p' \<and> b = b' \<and> h = h'"
  by (metis prefix16_mk_ip block_idx_mk_ip host_idx_mk_ip)

lemma cell_mk_ip:
  "cell ctx (mk_ip p b h) = (case block_at ctx p b of None \<Rightarrow> 0 | Some blk \<Rightarrow> scores blk h)"
  by (simp add: cell_def prefix16_mk_ip block_idx_mk_ip host_idx_mk_ip split: option.splits)

lemma live_total_card: "live_total ctx = card {ip. cell ctx ip \<noteq> 0}"
proof -
  let ?B = "\<lambda>slot. {h. cell ctx (mk_ip (fst slot) (snd slot) h) \<noteq> 0}"
  let ?g = "\<lambda>(slot, h). mk_ip (fst slot) (snd slot) h"
  have img: "{ip. cell ctx ip \<noteq> 0} = ?g ` (SIGMA slot:UNIV. ?B slot)"
  proof (intro set_eqI iffI)
    fix ip
    assume "ip \<in> {ip. cell ctx ip \<noteq> 0}"
    then have "((ip_to_prefix16 ip, ip_to_block_idx ip), ip_to_host_idx ip) \<in> (SIGMA slot:UNIV. ?B slot)"
      by (simp add: mk_ip_parts)
    moreover have "ip = ?g ((ip_to_prefix16 ip, ip_to_block_idx ip), ip_to_host_idx ip)"
      by (simp add: mk_ip_parts)
    ultimately show "ip \<in> ?g ` (SIGMA slot:UNIV. ?B slot)"
      by (rule image_eqI[rotated])
  next
    fix ip
    assume "ip \<in> ?g ` (SIGMA slot:UNIV. ?B slot)"
    then show "ip \<in> {ip. cell ctx ip \<noteq> 0}" by auto
  qed
  have inj: "inj_on ?g (SIGMA slot:UNIV. ?B slot)"
    by (auto simp: inj_on_def mk_ip_inj)
  have "card {ip. cell ctx ip \<noteq> 0} = card (SIGMA slot:UNIV. ?B slot)"
    unfolding img using inj by (rule card_image)
  also have "\<dots> = (\<Sum>slot\<in>UNIV. card (?B slot))"
    by (rule card_SigmaI) simp_all
  also have "\<dots> = (\<Sum>slot\<in>UNIV. live_in ctx slot)"
  proof (rule sum.cong)
    fix slot :: "16 word \<times> 8 word"
    show "card (?B slot) = live_in ctx slot"
      by (auto simp: cell_mk_ip live_in_def nonzero_in_def split: option.splits)
  qed simp
  finally show ?thesis by (simp add: live_total_def)
qed

lemma card_cells_le: "card {ip. cell ctx ip \<noteq> 0} \<le> 2 ^ 32"
proof -
  have "card {ip. cell ctx ip \<noteq> 0} \<le> card (UNIV :: 32 word set)"
    by (rule card_mono) auto
  then show ?thesis by (simp add: card_word)
qed

lemma count_eq_card:
  assumes "engine_inv ctx"
  shows "unat (sauron_count ctx) = card {ip. cell ctx ip \<noteq> 0}"
proof -
  from assms have "score_count ctx = of_nat (live_total ctx)"
    by (simp add: engine_inv_def counts_ok_def)
  then have "unat (sauron_count ctx) = unat (of_nat (card {ip. cell ctx ip \<noteq> 0}) :: 64 word)"
    by (simp add: sauron_count_def live_total_card)
  also have "\<dots> = card {ip. cell ctx ip \<noteq> 0}"
    using card_cells_le[of ctx] by (simp add: unat_of_nat)
  finally show ?thesis .
qed

lemma active_eq_card:
  assumes "engine_inv ctx" and "block_at ctx p b = Some blk"
  shows "unat (active_count blk) = card {h. scores blk h \<noteq> 0}"
proof -
  from assms have "active_count blk = of_nat (nonzero_in blk)"
    by (simp add: engine_inv_def counts_ok_def)
  then have "unat (active_count blk) = unat (of_nat (nonzero_in blk) :: 32 word)" by simp
  also have "\<dots> = nonzero_in blk"
    using nonzero_in_le[of blk] by (simp add: unat_of_nat)
  finally show ?thesis by (simp add: nonzero_in_def)
qed

lemma reachable_fresh: "reachable fresh_engine"
  unfolding reachable_def by (rule reachable_by.created[OF create_no_oom])

lemma reachable_step: "reachable ctx \<Longrightarrow> reachable (apply_op opn ctx)"
  unfolding reachable_def by (rule reachable_by.step) (simp_all add: any_operation_def)

lemma score_count_set_fresh:
  "score \<noteq> 0 \<Longrightarrow> score_count (snd (sauron_set_u32 fresh_engine ip score)) = 1"
proof -
  assume nz: "score \<noteq> 0"
  have a: "block_ptrs fresh_engine (ip_to_prefix16 ip) = None"
    and h: "heap fresh_engine 0" "heap fresh_engine 1" and s: "score_count fresh_engine = 0"
    by (simp_all add: fresh_engine_def no_oom_def)
  show ?thesis
    using nz h s by (simp add: sauron_set_u32_def goab_no_array[OF a] empty_block_def Let_def)
qed

subsection \<open>The range of the stored scores\<close>

lemma saturating_add_range:
  "- 32767 \<le> sint (saturating_add a b)" "sint (saturating_add a b) \<le> 32767"
  by (simp_all add: sint_saturating_add clamp_def)

lemma saturating_add_no_min: "saturating_add a b \<noteq> INT16_MIN"
proof
  assume "saturating_add a b = INT16_MIN"
  then have "sint (saturating_add a b) = - 32768" by (simp add: INT16_MIN_def)
  with saturating_add_range(1)[of a b] show False by simp
qed

lemma cell_set:
  "cell (snd (sauron_set_u32 ctx ip score)) a =
     (if a = ip \<and> fst (get_or_alloc_block ctx ip) \<noteq> None then score else cell ctx a)"
proof (cases "get_or_alloc_block ctx ip")
  case (Pair r c1)
  show ?thesis
  proof (cases r)
    case None
    with Pair show ?thesis
      using cell_goab[OF Pair] by (simp add: sauron_set_u32_def)
  next
    case (Some blk)
    with Pair set_u32_ok(2)[OF Pair[unfolded Some]] show ?thesis by simp
  qed
qed

lemma cell_incr:
  "cell (snd (sauron_incr_u32 ctx ip delta)) a =
     (if a = ip \<and> delta \<noteq> 0 \<and> fst (get_or_alloc_block ctx ip) \<noteq> None
      then saturating_add (cell ctx ip) delta else cell ctx a)"
proof (cases "delta = 0")
  case True
  then show ?thesis by (simp add: sauron_incr_u32_def)
next
  case False
  show ?thesis
  proof (cases "get_or_alloc_block ctx ip")
    case (Pair r c1)
    show ?thesis
    proof (cases r)
      case None
      with Pair False show ?thesis
        using cell_goab[OF Pair] by (simp add: sauron_incr_u32_def)
    next
      case (Some blk)
      with Pair False incr_u32_ok(2)[OF Pair[unfolded Some] False] show ?thesis by simp
    qed
  qed
qed

lemma cell_block_store:
  "block_at ctx p b = Some blk0 \<Longrightarrow>
   cell (block_store ctx p b blk) a =
     (if ip_to_prefix16 a = p \<and> ip_to_block_idx a = b then scores blk (ip_to_host_idx a)
      else cell ctx a)"
  using block_at_Some_array[of ctx p b blk0]
  by (auto simp: cell_def block_at_block_store)

lemma cell_upd [simp]:
  "cell (ctx\<lparr>score_count := sc\<rparr>) = cell ctx"
  "cell (ctx\<lparr>bitmap := bm\<rparr>) = cell ctx"
  by (simp_all add: cell_def fun_eq_iff)

lemma cell_delete:
  "cell (snd (sauron_delete_u32 ctx ip)) a =
     (if a = ip \<and> get_block ctx ip \<noteq> None then 0 else cell ctx a)"
proof (cases "get_block ctx ip")
  case None
  then show ?thesis by (simp add: sauron_delete_u32_def)
next
  case (Some blk)
  then have ba: "block_at ctx (ip_to_prefix16 ip) (ip_to_block_idx ip) = Some blk"
    by (auto simp: get_block_def Let_def block_at_def split: if_splits option.splits)
  then have c: "cell ctx ip = scores blk (ip_to_host_idx ip)" by (simp add: cell_def)
  have ba': "block_at (ctx\<lparr>score_count := score_count ctx - 1\<rparr>) (ip_to_prefix16 ip) (ip_to_block_idx ip) = Some blk"
    using ba by simp
  show ?thesis
  proof (cases "scores blk (ip_to_host_idx ip) = 0")
    case True
    with Some c show ?thesis by (auto simp: sauron_delete_u32_def Let_def)
  next
    case False
    let ?blk' = "blk\<lparr>scores := (scores blk)(ip_to_host_idx ip := 0), active_count := active_count blk - 1\<rparr>"
    have same: "cell ctx a = scores blk (ip_to_host_idx a)"
      if "ip_to_prefix16 a = ip_to_prefix16 ip" "ip_to_block_idx a = ip_to_block_idx ip"
      using that ba by (simp add: cell_def)
    have "cell (block_store (ctx\<lparr>score_count := score_count ctx - 1\<rparr>)
             (ip_to_prefix16 ip) (ip_to_block_idx ip) ?blk') a = (if a = ip then 0 else cell ctx a)"
      using same by (auto simp: cell_block_store[OF ba'] ip_eq_iff[of a ip])
    with Some False show ?thesis
      by (simp add: sauron_delete_u32_def Let_def)
  qed
qed

lemma no_min_set: "no_min_cell ctx \<Longrightarrow> score \<noteq> INT16_MIN \<Longrightarrow> no_min_cell (snd (sauron_set_u32 ctx ip score))"
  by (simp add: no_min_cell_def cell_set)

lemma no_min_incr: "no_min_cell ctx \<Longrightarrow> no_min_cell (snd (sauron_incr_u32 ctx ip delta))"
  by (simp add: no_min_cell_def cell_incr saturating_add_no_min)

lemma no_min_decr: "no_min_cell ctx \<Longrightarrow> no_min_cell (snd (sauron_decr_u32 ctx ip delta))"
  by (simp add: sauron_decr_u32_def no_min_incr)

lemma zero_no_min [simp]: "(0::16 word) \<noteq> INT16_MIN"
  by (simp add: INT16_MIN_def)

lemma no_min_delete: "no_min_cell ctx \<Longrightarrow> no_min_cell (snd (sauron_delete_u32 ctx ip))"
  by (simp add: no_min_cell_def cell_delete)

lemma no_min_incr_batch: "no_min_cell ctx \<Longrightarrow> no_min_cell (snd (sauron_incr_batch ctx batch))"
  unfolding sauron_incr_batch_def
  by (rule fold_invariant[where P="\<lambda>s. no_min_cell (snd s)"])
    (auto simp: no_min_incr split: prod.splits)

lemma no_min_clear: "no_min_cell (clear_all_blocks ctx)"
  by (simp add: no_min_cell_def)

lemma decay_value_no_min:
  assumes ok: "\<not> f32_lt_zero f" "\<not> f32_gt_one f" and v: "v \<noteq> INT16_MIN"
  shows "decay_value f a v \<noteq> INT16_MIN"
proof
  assume e: "decay_value f a v = INT16_MIN"
  then have "v \<noteq> 0" by (auto simp: decay_value_def)
  with e have t: "f32_to_int16 (decay_mul v f) = INT16_MIN"
    by (auto simp: decay_value_def Let_def split: if_splits)
  have "sint v \<noteq> - 32768"
  proof
    assume "sint v = - 32768"
    then have "sint v = sint INT16_MIN" by (simp add: INT16_MIN_def)
    then have "v = INT16_MIN" by (rule signed_word_eqI)
    with v show False by simp
  qed
  moreover have "- 32768 \<le> sint v" "sint v \<le> 32767"
    using sint_ge[of v] sint_lt[of v] by simp_all
  ultimately have "\<bar>sint v\<bar> \<le> 32767" by simp
  with decay_in_range[OF ok, of v] have "\<bar>sint (f32_to_int16 (decay_mul v f))\<bar> \<le> 32767" by simp
  with t show False by (simp add: INT16_MIN_def)
qed

lemma no_min_decay:
  assumes "engine_inv ctx" and "no_min_cell ctx"
  shows "no_min_cell (snd (sauron_decay ctx f d))"
proof (cases "f32_lt_zero f \<or> f32_gt_one f")
  case True
  with assms show ?thesis by (simp add: sauron_decay_rejected)
next
  case False
  then have ok: "\<not> f32_lt_zero f" "\<not> f32_gt_one f" by simp_all
  show ?thesis
    using assms(2) by (simp add: no_min_cell_def cell_decay[OF assms(1) ok] decay_value_no_min[OF ok])
qed

lemma parse_value_loop_range:
  "0 \<le> v \<Longrightarrow> v \<le> 32767 \<Longrightarrow> 0 \<le> snd (parse_value_loop p v) \<and> snd (parse_value_loop p v) \<le> 32767"
  by (induction p v rule: parse_value_loop.induct) auto

lemma parse_bulk_value_no_min:
  assumes "parse_bulk_value p = Some (v, rel)"
  shows "v \<noteq> INT16_MIN"
proof -
  have r: "x \<noteq> INT16_MIN" if "x = word_of_int (if n then - w else w)" "0 \<le> w" "w \<le> 32767"
    for x :: "16 word" and n w
  proof
    assume "x = INT16_MIN"
    then have "sint x = - 32768" by (simp add: INT16_MIN_def)
    moreover have "sint x = (if n then - w else w)"
      using that by (auto simp: signed_take_bit_int_eq_self sint_sbintrunc')
    ultimately show False using that by (auto split: if_splits)
  qed
  obtain rl n p2 where ps: "parse_sign (skip_blanks p) = (rl, n, p2)"
    by (cases "parse_sign (skip_blanks p)") auto
  obtain p3 w where pv: "parse_value_loop p2 0 = (p3, w)"
    by (cases "parse_value_loop p2 0") auto
  from assms pv have "v = word_of_int (if n then - w else w)"
    unfolding parse_bulk_value_def ps
    by (auto split: list.splits if_splits simp del: parse_value_loop.simps)
  moreover have "0 \<le> w \<and> w \<le> 32767"
    using parse_value_loop_range[of 0 p2] pv by simp
  ultimately show ?thesis by (intro r) auto
qed

lemma parse_bulk_line_no_min:
  assumes "parse_bulk_line line = Some (ip, v, rel)"
  shows "v \<noteq> INT16_MIN"
proof -
  from assms obtain p1 where "parse_bulk_value p1 = Some (v, rel)"
    by (auto simp: parse_bulk_line_def split: option.splits list.splits if_splits)
  then show ?thesis by (rule parse_bulk_value_no_min)
qed

lemma no_min_bulk_apply: "no_min_cell (fst st) \<Longrightarrow> no_min_cell (fst (bulk_apply line st))"
  by (cases st)
    (auto simp: bulk_apply_def no_min_set no_min_incr parse_bulk_line_no_min split: option.splits)

lemma no_min_bulk_buffer_line: "no_min_cell (fst st) \<Longrightarrow> no_min_cell (fst (bulk_buffer_line line st))"
  using no_min_bulk_apply[of "(fst st, (snd st)\<lparr>lines_processed := lines_processed (snd st) + 1\<rparr>)"]
  by (cases st) (auto simp: bulk_buffer_line_def Let_def)

lemma no_min_bulk_file_line: "no_min_cell (fst st) \<Longrightarrow> no_min_cell (fst (bulk_file_line line st))"
  using no_min_bulk_apply[of "(fst st, (snd st)\<lparr>lines_processed := lines_processed (snd st) + 1\<rparr>)"]
  by (cases st) (auto simp: bulk_file_line_def Let_def)

lemma no_min_bulk_load_buffer:
  assumes "no_min_cell ctx"
  shows "no_min_cell (fst (snd (sauron_bulk_load_buffer ctx data)))"
proof -
  have "no_min_cell (fst (fold bulk_buffer_line (buffer_lines data) (ctx, s0)))" for s0
    by (rule fold_invariant[where P="\<lambda>s. no_min_cell (fst s)"])
      (simp_all add: assms no_min_bulk_buffer_line)
  then show ?thesis
    by (simp add: sauron_bulk_load_buffer_def split: prod.splits)
qed

lemma no_min_bulk_load:
  assumes "no_min_cell ctx"
  shows "no_min_cell (fst (snd (sauron_bulk_load ctx file ok)))"
proof -
  have "no_min_cell (fst (fold bulk_file_line (file_lines content) (ctx, s0)))" for s0 content
    by (rule fold_invariant[where P="\<lambda>s. no_min_cell (fst s)"])
      (simp_all add: assms no_min_bulk_file_line)
  then show ?thesis
    using assms
    by (auto simp: sauron_bulk_load_def split: prod.splits option.splits) (metis fst_conv)
qed

lemma entry_scores_ok_drop:
  assumes "entry_scores_ok bytes" and "6 \<le> length bytes"
  shows "entry_scores_ok (drop 6 bytes)"
    and "(le_word (take 2 (drop 4 bytes)) :: 16 word) \<noteq> INT16_MIN"
proof -
  show "(le_word (take 2 (drop 4 bytes)) :: 16 word) \<noteq> INT16_MIN"
    using assms by (auto simp: entry_scores_ok_def dest!: spec[of _ 0])
  show "entry_scores_ok (drop 6 bytes)"
    unfolding entry_scores_ok_def
  proof (intro allI impI)
    fix i
    assume i: "i < length (drop 6 bytes)" "6 * i + 6 \<le> length (drop 6 bytes)"
    then have "Suc i < length bytes" "6 * Suc i + 6 \<le> length bytes" by auto
    with assms(1) have "(le_word (take 2 (drop (6 * Suc i + 4) bytes)) :: 16 word) \<noteq> INT16_MIN"
      unfolding entry_scores_ok_def by blast
    moreover have "drop (6 * i + 4) (drop 6 bytes) = drop (6 * Suc i + 4) bytes"
      by (simp add: add.commute)
    ultimately show "(le_word (take 2 (drop (6 * i + 4) (drop 6 bytes))) :: 16 word) \<noteq> INT16_MIN"
      by simp
  qed
qed

lemma no_min_load_entries:
  "no_min_cell ctx \<Longrightarrow> entry_scores_ok bytes \<Longrightarrow> no_min_cell (snd (load_entries n bytes ctx))"
proof (induction n arbitrary: bytes ctx)
  case 0
  then show ?case by simp
next
  case (Suc n)
  show ?case
  proof (cases "length bytes < 6")
    case True
    with Suc.prems show ?thesis by simp
  next
    case False
    then have l: "6 \<le> length bytes" by simp
    note d = entry_scores_ok_drop[OF Suc.prems(2) l]
    show ?thesis
      using False Suc.prems(1) d
      by (auto simp: Let_def intro!: Suc.IH no_min_set)
  qed
qed

lemma no_min_load:
  assumes "no_min_cell ctx" and "stores_no_min (Load filename fs)"
  shows "no_min_cell (snd (sauron_load ctx filename fs))"
  using assms
  by (auto simp: sauron_load_def no_min_load_entries no_min_clear split: option.splits)

lemma no_min_apply_op:
  assumes "engine_inv ctx" and "no_min_cell ctx" and "stores_no_min opn"
  shows "no_min_cell (apply_op opn ctx)"
  using assms
  by (cases opn)
    (simp_all add: no_min_set no_min_incr no_min_decr no_min_delete no_min_incr_batch
      no_min_decay no_min_load no_min_bulk_load no_min_bulk_load_buffer sauron_clear_def
      no_min_clear del: stores_no_min.simps(2))

lemma no_min_create: "sauron_create h = Some ctx \<Longrightarrow> no_min_cell ctx"
  by (auto simp: sauron_create_def no_min_cell_def cell_def block_at_def split: if_splits)

lemma reachable_no_min: "reachable_by stores_no_min ctx \<Longrightarrow> no_min_cell ctx"
proof (induction rule: reachable_by.induct)
  case (created h ctx)
  then show ?case by (rule no_min_create)
next
  case (step ctx opn)
  from step.hyps(1) have "engine_inv ctx" by (rule reachable_by_inv)
  with step show ?case by (simp add: no_min_apply_op)
qed

lemma no_min_range: "v \<noteq> INT16_MIN \<Longrightarrow> - 32767 \<le> sint v \<and> sint v \<le> 32767"
proof -
  assume v: "v \<noteq> INT16_MIN"
  have "sint v \<noteq> - 32768"
  proof
    assume "sint v = - 32768"
    then have "sint v = sint INT16_MIN" by (simp add: INT16_MIN_def)
    then have "v = INT16_MIN" by (rule signed_word_eqI)
    with v show False by simp
  qed
  moreover have "- 32768 \<le> sint v" "sint v \<le> 32767"
    using sint_ge[of v] sint_lt[of v] by simp_all
  ultimately show ?thesis by simp
qed

subsection \<open>The decay against the words of the specification\<close>

lemma sint_abs_deadzone:
  assumes "d \<noteq> INT16_MIN"
  shows "sint (abs_deadzone d) = \<bar>sint d\<bar>"
proof (cases "sint d < 0")
  case True
  from no_min_range[OF assms] have "- 32767 \<le> sint d" by simp
  then have rng: "- 32768 \<le> - sint d" "- sint d \<le> 32767"
    using True by simp_all
  have "- d = word_of_int (- sint d)" by simp
  then have "sint (- d) = sint (word_of_int (- sint d) :: 16 word)" by (rule arg_cong)
  also have "\<dots> = - sint d"
    using rng by (simp only: sint_sbintrunc') (simp add: signed_take_bit_int_eq_self)
  finally have "sint (- d) = - sint d" .
  with True show ?thesis by (simp add: abs_deadzone_def)
next
  case False
  then show ?thesis by (simp add: abs_deadzone_def)
qed

lemma decay_value_spec:
  assumes "d \<noteq> INT16_MIN" and "v \<noteq> 0"
  shows "decay_value f (abs_deadzone d) v = spec_decay_value f d v"
  using assms(2)
  by (auto simp: decay_value_def spec_decay_value_def Let_def sint_abs_deadzone[OF assms(1)])

lemma bit_length_small: "n \<le> 2 ^ 15 \<Longrightarrow> bit_length n \<le> 24"
  by (rule bit_length_le) (simp add: le_less_trans)

lemma decay_mul_one:
  "decay_mul v f32_one = Finite (sint v < 0) (nat \<bar>sint v\<bar>) 0"
proof -
  have "nat \<bar>sint v\<bar> \<le> 2 ^ 15"
    using sint_ge[of v] sint_lt[of v] by simp
  then have "bit_length (nat \<bar>sint v\<bar>) \<le> 24" by (rule bit_length_small)
  then show ?thesis
    by (simp add: f32_one_def f32_round_def Let_def max_def)
qed

lemma decay_value_one: "decay_value f32_one (abs_deadzone 0) v = v"
proof (cases "v = 0")
  case True
  then show ?thesis by simp
next
  case False
  have "(if sint v < 0 then - \<bar>sint v\<bar> else \<bar>sint v\<bar>) = sint v" by simp
  then have "f32_to_int16 (decay_mul v f32_one) = word_of_int (sint v)"
    by (simp add: decay_mul_one Let_def)
  then have t: "f32_to_int16 (decay_mul v f32_one) = v" by simp
  have "sint v \<noteq> 0" using False by (metis signed_word_eqI sint_0)
  with False show ?thesis
    by (auto simp: decay_value_def Let_def t abs_deadzone_def)
qed

lemma f32_one_accepted: "\<not> f32_lt_zero f32_one" "\<not> f32_gt_one f32_one"
  by (simp_all add: f32_one_def)

lemma decay_follows_spec:
  assumes "reachable ctx"
  shows "(f32_lt_zero f \<or> f32_gt_one f \<longrightarrow> sauron_decay ctx f d = (0, ctx))
       \<and> (\<not> f32_lt_zero f \<and> \<not> f32_gt_one f \<and> d \<noteq> INT16_MIN \<longrightarrow>
            sauron_get_u32 (snd (sauron_decay ctx f d)) ip =
              (if sauron_get_u32 ctx ip = 0 then 0 else spec_decay_value f d (sauron_get_u32 ctx ip)))
       \<and> sauron_get_u32 (snd (sauron_decay ctx f32_one 0)) ip = sauron_get_u32 ctx ip
       \<and> sauron_count (snd (sauron_decay ctx f32_one 0)) = sauron_count ctx"
proof -
  from assms have inv: "engine_inv ctx" by (rule reachable_inv)
  have inv': "engine_inv (snd (sauron_decay ctx f' d'))" for f' d'
    using inv by (rule inv_decay)
  have g: "sauron_get_u32 (snd (sauron_decay ctx f' d')) ip = decay_value f' (abs_deadzone d') (sauron_get_u32 ctx ip)"
    if "\<not> f32_lt_zero f'" "\<not> f32_gt_one f'" for f' d'
    using cell_decay[OF inv that] by (simp add: get_eq_cell[OF inv] get_eq_cell[OF inv'])
  have 1: "f32_lt_zero f \<or> f32_gt_one f \<Longrightarrow> sauron_decay ctx f d = (0, ctx)"
    by (rule sauron_decay_rejected)
  have 2: "sauron_get_u32 (snd (sauron_decay ctx f d)) ip =
      (if sauron_get_u32 ctx ip = 0 then 0 else spec_decay_value f d (sauron_get_u32 ctx ip))"
    if "\<not> f32_lt_zero f" "\<not> f32_gt_one f" "d \<noteq> INT16_MIN"
    using g[OF that(1,2)] decay_value_spec[OF that(3), of "sauron_get_u32 ctx ip" f] by simp
  have c: "cell (snd (sauron_decay ctx f32_one 0)) = cell ctx"
    using cell_decay[OF inv f32_one_accepted, of 0] by (simp add: fun_eq_iff decay_value_one)
  have 3: "sauron_get_u32 (snd (sauron_decay ctx f32_one 0)) ip = sauron_get_u32 ctx ip"
    using c by (simp add: get_eq_cell[OF inv] get_eq_cell[OF inv'])
  have "score_count (snd (sauron_decay ctx f32_one 0)) = of_nat (live_total (snd (sauron_decay ctx f32_one 0)))"
    using inv'[of f32_one 0] by (simp add: engine_inv_def counts_ok_def)
  moreover have "score_count ctx = of_nat (live_total ctx)"
    using inv by (simp add: engine_inv_def counts_ok_def)
  ultimately have 4: "sauron_count (snd (sauron_decay ctx f32_one 0)) = sauron_count ctx"
    by (simp add: sauron_count_def live_total_card c)
  from 1 2 3 4 show ?thesis by blast
qed

lemma decay_value_half_100:
  "decay_value f32_half (abs_deadzone INT16_MIN) 100 = 50"
  by (simp add: decay_value_def f32_half_def abs_deadzone_def INT16_MIN_def f32_round_def Let_def)

subsection \<open>The CSV grammar\<close>

lemma is_digit_not_special:
  assumes "is_digit c"
  shows "c \<noteq> CHR '',''" "c \<noteq> CHR ''.''" "c \<noteq> CHR '' ''" "c \<noteq> CHR 0x09" "c \<noteq> CHR ''+''"
    "c \<noteq> CHR ''-''" "c \<noteq> CHR 0x00" "c \<noteq> CHR ''#''" "c \<noteq> CHR 0x0A" "c \<noteq> CHR 0x0D"
  using assms by (auto simp: is_digit_def)

lemma dec_from_simps [simp]:
  "dec_from acc [] = acc"
  "dec_from acc (c # cs) = dec_from (acc * 10 + digit_val c) cs"
  by (simp_all add: dec_from_def)

lemma dec_from_mono: "acc \<le> dec_from acc s"
proof (induction s arbitrary: acc)
  case Nil
  then show ?case by simp
next
  case (Cons c cs)
  have "acc \<le> acc * 10 + digit_val c" by simp
  also have "\<dots> \<le> dec_from (acc * 10 + digit_val c) cs" by (rule Cons.IH)
  finally show ?case by simp
qed

lemma dec_eq: "dec s = dec_from 0 s"
  by (simp add: dec_def dec_from_def)

text \<open>The address loop over the digits of one octet.\<close>

lemma parse_ip_loop_digits:
  assumes "list_all is_digit s" and "dec_from octet s \<le> 255"
  shows "parse_ip_loop (s @ rest) ip octet dots digits =
           parse_ip_loop rest ip (dec_from octet s) dots (digits + length s)"
  using assms
proof (induction s arbitrary: octet digits)
  case Nil
  then show ?case by simp
next
  case (Cons c cs)
  from Cons.prems have d: "is_digit c" and ds: "list_all is_digit cs"
    and le: "dec_from (octet * 10 + digit_val c) cs \<le> 255" by simp_all
  have "octet * 10 + digit_val c \<le> 255"
    using dec_from_mono[of "octet * 10 + digit_val c" cs] le by simp
  then show ?case
    using d is_digit_not_special(1)[OF d] Cons.IH[OF ds le] by simp
qed

lemma parse_ip_loop_dot:
  assumes "0 < digits" and "dots < 3"
  shows "parse_ip_loop (CHR ''.'' # rest) ip octet dots digits =
           parse_ip_loop rest (push_bit 8 ip OR of_nat octet) 0 (Suc dots) 0"
  using assms by (simp add: is_digit_def)

lemma parse_ip_loop_comma:
  "parse_ip_loop (CHR '','' # rest) ip octet dots digits = Some (CHR '','' # rest, ip, octet, dots, digits)"
  by simp

lemma shift_or_octet:
  fixes x :: nat
  assumes "c \<le> 255"
  shows "push_bit 8 (of_nat x :: 32 word) OR of_nat c = of_nat (x * 256 + c)"
proof -
  have "push_bit 8 (of_nat x :: 32 word) + of_nat c = push_bit 8 (of_nat x) OR of_nat c"
  proof (rule disjunctive_add)
    fix n
    show "\<not> bit (push_bit 8 (of_nat x :: 32 word)) n \<or> \<not> bit (of_nat c :: 32 word) n"
    proof (cases "n < 8")
      case True
      then show ?thesis by (simp add: bit_push_bit_iff)
    next
      case False
      have "take_bit 8 c = c"
        using assms by (intro take_bit_nat_eq_self) simp
      then have "bit c n = bit (take_bit 8 c) n" by simp
      also have "\<dots> = (n < 8 \<and> bit c n)" by (rule bit_take_bit_iff)
      finally have "\<not> bit c n" using False by simp
      then show ?thesis by (simp add: bit_of_nat_iff)
    qed
  qed
  then show ?thesis by (simp add: push_bit_eq_mult)
qed

lemma digit_string_hd:
  assumes "digit_string s"
  obtains c cs where "s = c # cs" "is_digit c" "list_all is_digit cs"
  using assms by (cases s) (auto simp: digit_string_def)

lemma skip_blanks_digit: "digit_string s \<Longrightarrow> skip_blanks (s @ rest) = s @ rest"
  by (erule digit_string_hd) (simp add: is_digit_not_special)

lemma parse_ip_dotted:
  assumes "octet_string o1" "octet_string o2" "octet_string o3" "octet_string o4"
  shows "parse_ip_loop (dotted o1 o2 o3 o4 @ CHR '','' # rest) 0 0 0 0 =
           Some (CHR '','' # rest, of_nat ((dec o1 * 256 + dec o2) * 256 + dec o3), dec o4, 3, length o4)"
proof -
  from assms have d: "list_all is_digit o1" "list_all is_digit o2" "list_all is_digit o3"
      "list_all is_digit o4"
    and l: "0 < length o1" "0 < length o2" "0 < length o3" "0 < length o4"
    and v: "dec_from 0 o1 \<le> 255" "dec_from 0 o2 \<le> 255" "dec_from 0 o3 \<le> 255" "dec_from 0 o4 \<le> 255"
    by (simp_all add: octet_string_def digit_string_def dec_eq)
  define i1 :: "32 word" where "i1 = of_nat (dec_from 0 o1)"
  define i2 :: "32 word" where "i2 = of_nat (dec_from 0 o1 * 256 + dec_from 0 o2)"
  define i3 :: "32 word" where "i3 = of_nat ((dec_from 0 o1 * 256 + dec_from 0 o2) * 256 + dec_from 0 o3)"
  have 1: "of_nat (dec_from 0 o1) = i1"
    by (simp add: i1_def)
  have 2: "push_bit 8 i1 OR of_nat (dec_from 0 o2) = i2"
    unfolding i1_def i2_def using v(2) by (rule shift_or_octet)
  have 3: "push_bit 8 i2 OR of_nat (dec_from 0 o3) = i3"
    unfolding i2_def i3_def using v(3) by (rule shift_or_octet)
  have "parse_ip_loop (o1 @ CHR ''.'' # o2 @ CHR ''.'' # o3 @ CHR ''.'' # o4 @ CHR '','' # rest) 0 0 0 0
      = parse_ip_loop (CHR ''.'' # o2 @ CHR ''.'' # o3 @ CHR ''.'' # o4 @ CHR '','' # rest)
          0 (dec_from 0 o1) 0 (length o1)"
    using parse_ip_loop_digits[OF d(1) v(1), of _ 0 0 0] by simp
  also have "\<dots> = parse_ip_loop (o2 @ CHR ''.'' # o3 @ CHR ''.'' # o4 @ CHR '','' # rest) i1 0 (Suc 0) 0"
    using l(1) by (simp add: parse_ip_loop_dot 1 del: parse_ip_loop.simps)
  also have "\<dots> = parse_ip_loop (CHR ''.'' # o3 @ CHR ''.'' # o4 @ CHR '','' # rest)
          i1 (dec_from 0 o2) (Suc 0) (length o2)"
    using parse_ip_loop_digits[OF d(2) v(2), of _ _ "Suc 0" 0] by simp
  also have "\<dots> = parse_ip_loop (o3 @ CHR ''.'' # o4 @ CHR '','' # rest) i2 0 (Suc (Suc 0)) 0"
    using l(2) by (simp add: parse_ip_loop_dot 2 del: parse_ip_loop.simps)
  also have "\<dots> = parse_ip_loop (CHR ''.'' # o4 @ CHR '','' # rest)
          i2 (dec_from 0 o3) (Suc (Suc 0)) (length o3)"
    using parse_ip_loop_digits[OF d(3) v(3), of _ _ "Suc (Suc 0)" 0] by simp
  also have "\<dots> = parse_ip_loop (o4 @ CHR '','' # rest) i3 0 (Suc (Suc (Suc 0))) 0"
    using l(3) by (simp add: parse_ip_loop_dot 3 del: parse_ip_loop.simps)
  also have "\<dots> = parse_ip_loop (CHR '','' # rest) i3 (dec_from 0 o4) (Suc (Suc (Suc 0))) (length o4)"
    using parse_ip_loop_digits[OF d(4) v(4), of _ _ "Suc (Suc (Suc 0))" 0] by simp
  also have "\<dots> = Some (CHR '','' # rest, i3, dec_from 0 o4, 3, length o4)"
    by (simp add: is_digit_def numeral_3_eq_3)
  finally show ?thesis
    unfolding i3_def dotted_def dec_eq by simp
qed

lemma takeWhile_all: "list_all P xs \<Longrightarrow> takeWhile P xs = xs"
  by (induction xs) simp_all

lemma digits_no_nul: "list_all is_digit s \<Longrightarrow> list_all (\<lambda>c. c \<noteq> CHR 0x00) s"
  by (induction s) (simp_all add: is_digit_not_special)

lemma parse_line_address:
  assumes o: "octet_string o1" "octet_string o2" "octet_string o3" "octet_string o4"
    and nn: "list_all (\<lambda>c. c \<noteq> CHR 0x00) vpart"
  shows "parse_bulk_line (dotted o1 o2 o3 o4 @ CHR '','' # vpart) =
           (case parse_bulk_value vpart of
              None \<Rightarrow> None
            | Some (v, is_relative) \<Rightarrow> Some (ipv4 (dec o1) (dec o2) (dec o3) (dec o4), v, is_relative))"
proof -
  from o have ds: "digit_string o1" "list_all is_digit o1" "list_all is_digit o2"
      "list_all is_digit o3" "list_all is_digit o4" and l4: "0 < length o4" and v4: "dec o4 \<le> 255"
    by (simp_all add: octet_string_def digit_string_def)
  have "list_all (\<lambda>c. c \<noteq> CHR 0x00) (dotted o1 o2 o3 o4 @ CHR '','' # vpart)"
    using ds(2-5) nn by (simp add: dotted_def digits_no_nul)
  then have tw: "takeWhile (\<lambda>c. c \<noteq> CHR 0x00) (dotted o1 o2 o3 o4 @ CHR '','' # vpart)
      = dotted o1 o2 o3 o4 @ CHR '','' # vpart"
    by (rule takeWhile_all)
  have sb: "skip_blanks (dotted o1 o2 o3 o4 @ CHR '','' # vpart) = dotted o1 o2 o3 o4 @ CHR '','' # vpart"
    using skip_blanks_digit[OF ds(1)] by (simp add: dotted_def)
  define i3 :: "32 word" where "i3 = of_nat ((dec o1 * 256 + dec o2) * 256 + dec o3)"
  have pd: "parse_ip_loop (dotted o1 o2 o3 o4 @ CHR '','' # vpart) 0 0 0 0 =
      Some (CHR '','' # vpart, i3, dec o4, 3, length o4)"
    unfolding i3_def by (rule parse_ip_dotted[OF o])
  have ip: "push_bit 8 i3 OR of_nat (dec o4) = ipv4 (dec o1) (dec o2) (dec o3) (dec o4)"
    unfolding ipv4_def i3_def using v4 by (rule shift_or_octet)
  show ?thesis
    using l4 by (simp add: parse_bulk_line_def tw sb pd ip split: option.splits)
qed

text \<open>The loop over the digits of the value: saturation commutes with the decimal value.\<close>

lemma val_from_simps [simp]:
  "val_from v [] = v"
  "val_from v (c # cs) = val_from (v * 10 + int (digit_val c)) cs"
  by (simp_all add: val_from_def)

lemma val_from_mono: "0 \<le> v \<Longrightarrow> v \<le> val_from v s"
proof (induction s arbitrary: v)
  case Nil
  then show ?case by simp
next
  case (Cons c cs)
  have "v \<le> v * 10 + int (digit_val c)" using Cons.prems by simp
  also have "\<dots> \<le> val_from (v * 10 + int (digit_val c)) cs"
    using Cons.prems by (intro Cons.IH) simp
  finally show ?case by simp
qed

lemma val_from_dec: "val_from (int a) s = int (dec_from a s)"
proof (induction s arbitrary: a)
  case Nil
  then show ?case by simp
next
  case (Cons c cs)
  have "int a * 10 + int (digit_val c) = int (a * 10 + digit_val c)" by simp
  then show ?case using Cons.IH[of "a * 10 + digit_val c"] by simp
qed

lemma parse_value_loop_digits:
  assumes "list_all is_digit s" and "0 \<le> v" and "v \<le> 32767"
  shows "parse_value_loop (s @ rest) v = parse_value_loop rest (min 32767 (val_from v s))"
  using assms
proof (induction s arbitrary: v)
  case Nil
  then show ?case by simp
next
  case (Cons c cs)
  let ?x = "v * 10 + int (digit_val c)"
  from Cons.prems have d: "is_digit c" and ds: "list_all is_digit cs" and x0: "0 \<le> ?x" by simp_all
  have sat: "min 32767 (val_from (min 32767 ?x) cs) = min 32767 (val_from ?x cs)"
  proof (cases "?x \<le> 32767")
    case True
    then show ?thesis by simp
  next
    case False
    then have "32767 \<le> val_from 32767 cs" "32767 \<le> val_from ?x cs"
      using val_from_mono[of 32767 cs] val_from_mono[of ?x cs] by simp_all
    with False show ?thesis by simp
  qed
  have "parse_value_loop ((c # cs) @ rest) v = parse_value_loop (cs @ rest) (min 32767 ?x)"
    using d by (simp add: min_def)
  also have "\<dots> = parse_value_loop rest (min 32767 (val_from (min 32767 ?x) cs))"
    using x0 by (intro Cons.IH[OF ds]) simp_all
  finally show ?case by (simp add: sat)
qed

lemma parse_value_digits:
  assumes "digit_string n"
  shows "parse_value_loop n 0 = ([], min 32767 (int (dec n)))"
proof -
  from assms have "list_all is_digit n" by (simp add: digit_string_def)
  from parse_value_loop_digits[OF this, of 0 "[]"] show ?thesis
    using val_from_dec[of 0 n] by (simp add: dec_eq)
qed

lemma parse_bulk_value_digits:
  assumes n: "digit_string n" and s: "parse_sign (skip_blanks p) = (rel, neg, n)"
  shows "parse_bulk_value p =
           Some (word_of_int (if neg then - min 32767 (int (dec n)) else min 32767 (int (dec n))), rel)"
proof -
  from n obtain c cs where c: "n = c # cs" "is_digit c" by (rule digit_string_hd)
  have "parse_value_loop (c # cs) 0 = ([], min 32767 (int (dec n)))"
    using parse_value_digits[OF n] c(1) by simp
  then show ?thesis
    using c by (simp add: parse_bulk_value_def s del: parse_value_loop.simps)
qed

lemma parse_sign_forms:
  assumes "digit_string n"
  shows "parse_sign (skip_blanks n) = (False, False, n)"
    and "parse_sign (skip_blanks (CHR ''-'' # n)) = (False, True, n)"
    and "parse_sign (skip_blanks (CHR ''+'' # n)) = (True, False, n)"
    and "parse_sign (skip_blanks (CHR ''+'' # CHR ''-'' # n)) = (True, True, n)"
  using assms
  by (auto elim!: digit_string_hd simp: parse_sign_def is_digit_not_special)

subsection \<open>Allocations that succeed\<close>

lemma heap_ok_goab:
  assumes "heap_ok ctx" and "get_or_alloc_block ctx ip = (r, ctx1)"
  shows "r \<noteq> None" and "heap_ok ctx1"
proof -
  from assms(1) have h: "heap ctx n" for n by (simp add: heap_ok_def)
  have "r \<noteq> None \<and> heap_ok ctx1"
  proof (cases ctx ip rule: goab_cases)
    case (present blk)
    from assms(2) show ?thesis
      unfolding goab_present[OF present] using h by (auto simp: heap_ok_def)
  next
    case no_array
    with assms(2) show ?thesis by (auto simp: goab_no_array h heap_ok_def)
  next
    case (no_block arr)
    with assms(2) goab_no_block[OF no_block] show ?thesis by (auto simp: h heap_ok_def)
  qed
  then show "r \<noteq> None" and "heap_ok ctx1" by simp_all
qed

lemma heap_ok_alloc: "heap_ok ctx \<Longrightarrow> fst (get_or_alloc_block ctx ip) \<noteq> None"
  using heap_ok_goab(1)[of ctx ip] by (cases "get_or_alloc_block ctx ip") simp

lemma heap_ok_set: "heap_ok ctx \<Longrightarrow> heap_ok (snd (sauron_set_u32 ctx ip score))"
  using heap_ok_goab[of ctx ip]
  by (cases "get_or_alloc_block ctx ip") (auto simp: sauron_set_u32_def Let_def heap_ok_def)

lemma heap_ok_incr: "heap_ok ctx \<Longrightarrow> heap_ok (snd (sauron_incr_u32 ctx ip delta))"
  using heap_ok_goab[of ctx ip]
  by (cases "get_or_alloc_block ctx ip") (auto simp: sauron_incr_u32_def Let_def heap_ok_def)

lemma heap_ok_fresh: "heap_ok fresh_engine"
  by (simp add: heap_ok_def fresh_engine_def no_oom_def)

lemma cell_fresh: "cell fresh_engine ip = 0"
  by (simp add: cell_def block_at_def fresh_engine_def)

lemma cell_set_ok:
  "heap_ok ctx \<Longrightarrow> cell (snd (sauron_set_u32 ctx ip score)) a = (if a = ip then score else cell ctx a)"
  by (simp add: cell_set heap_ok_alloc)

lemma cell_incr_ok:
  "heap_ok ctx \<Longrightarrow> delta \<noteq> 0 \<Longrightarrow> cell (snd (sauron_incr_u32 ctx ip delta)) a =
     (if a = ip then saturating_add (cell ctx ip) delta else cell ctx a)"
  by (simp add: cell_incr heap_ok_alloc)

subsection \<open>Records\<close>

lemma record_no_nul:
  "list_all (\<lambda>c. c \<noteq> CHR 0x00) v \<Longrightarrow> list_all (\<lambda>c. c \<noteq> CHR 0x00) (CHR ''+'' # v)"
  "list_all (\<lambda>c. c \<noteq> CHR 0x00) v \<Longrightarrow> list_all (\<lambda>c. c \<noteq> CHR 0x00) (CHR ''-'' # v)"
  by simp_all

lemma parse_record:
  assumes o: "octet_string o1" "octet_string o2" "octet_string o3" "octet_string o4"
    and n: "digit_string n"
  shows "parse_bulk_line (record_line o1 o2 o3 o4 n) =
           Some (ipv4 (dec o1) (dec o2) (dec o3) (dec o4), magnitude n, False)"
    and "parse_bulk_line (record_line o1 o2 o3 o4 (''-'' @ n)) =
           Some (ipv4 (dec o1) (dec o2) (dec o3) (dec o4), - magnitude n, False)"
    and "parse_bulk_line (record_line o1 o2 o3 o4 (''+'' @ n)) =
           Some (ipv4 (dec o1) (dec o2) (dec o3) (dec o4), magnitude n, True)"
    and "parse_bulk_line (record_line o1 o2 o3 o4 (''+-'' @ n)) =
           Some (ipv4 (dec o1) (dec o2) (dec o3) (dec o4), - magnitude n, True)"
proof -
  from n have nn: "list_all (\<lambda>c. c \<noteq> CHR 0x00) n"
    by (simp add: digit_string_def digits_no_nul)
  note s = parse_sign_forms[OF n]
  show "parse_bulk_line (record_line o1 o2 o3 o4 n) =
           Some (ipv4 (dec o1) (dec o2) (dec o3) (dec o4), magnitude n, False)"
    using parse_line_address[OF o nn] parse_bulk_value_digits[OF n s(1)]
    by (simp add: record_line_def magnitude_def)
  show "parse_bulk_line (record_line o1 o2 o3 o4 (''-'' @ n)) =
           Some (ipv4 (dec o1) (dec o2) (dec o3) (dec o4), - magnitude n, False)"
    using parse_line_address[OF o record_no_nul(2)[OF nn]] parse_bulk_value_digits[OF n s(2)]
    by (simp add: record_line_def magnitude_def)
  show "parse_bulk_line (record_line o1 o2 o3 o4 (''+'' @ n)) =
           Some (ipv4 (dec o1) (dec o2) (dec o3) (dec o4), magnitude n, True)"
    using parse_line_address[OF o record_no_nul(1)[OF nn]] parse_bulk_value_digits[OF n s(3)]
    by (simp add: record_line_def magnitude_def)
  show "parse_bulk_line (record_line o1 o2 o3 o4 (''+-'' @ n)) =
           Some (ipv4 (dec o1) (dec o2) (dec o3) (dec o4), - magnitude n, True)"
    using parse_line_address[OF o record_no_nul(1)[OF record_no_nul(2)[OF nn]]]
      parse_bulk_value_digits[OF n s(4)]
    by (simp add: record_line_def magnitude_def)
qed

lemma sint_magnitude: "sint (magnitude n) = min 32767 (int (dec n))"
  by (simp add: magnitude_def sint_sbintrunc' signed_take_bit_int_eq_self)

lemma bulk_apply_absolute:
  "parse_bulk_line line = Some (ip, v, False) \<Longrightarrow> bulk_apply line st = absolute_set ip v st"
  by (cases st) (simp add: bulk_apply_def absolute_set_def)

lemma bulk_apply_relative:
  "parse_bulk_line line = Some (ip, v, True) \<Longrightarrow> bulk_apply line st = relative_increment ip v st"
  by (cases st) (simp add: bulk_apply_def relative_increment_def)

lemma record_line_hd:
  assumes "octet_string o1"
  shows "record_line o1 o2 o3 o4 v \<noteq> []" and "hd (record_line o1 o2 o3 o4 v) \<noteq> CHR ''#''"
proof -
  from assms have "digit_string o1" by (simp add: octet_string_def)
  then obtain c cs where "o1 = c # cs" "is_digit c" by (rule digit_string_hd)
  then show "record_line o1 o2 o3 o4 v \<noteq> []" and "hd (record_line o1 o2 o3 o4 v) \<noteq> CHR ''#''"
    by (simp_all add: record_line_def dotted_def is_digit_not_special)
qed

lemma bulk_buffer_line_short:
  assumes "line \<noteq> []" and "hd line \<noteq> CHR ''#''" and "length line < BULK_LINE_MAX"
  shows "bulk_buffer_line line st = bulk_apply line (counted st)"
  using assms by (cases st) (simp add: bulk_buffer_line_def counted_def Let_def)

subsection \<open>The buffer of the specification and a record of 64 characters\<close>

lemma example_parse:
  "parse_bulk_line ''10.0.0.1,100'' = Some (0x0A000001, 100, False)"
  "parse_bulk_line ''10.0.0.2,+200'' = Some (0x0A000002, 200, True)"
  "parse_bulk_line ''10.0.0.3,-50'' = Some (0x0A000003, - 50, False)"
  by (simp_all add: parse_bulk_line_def parse_bulk_value_def parse_sign_def is_digit_def digit_val_def)

lemma example_load:
  "sauron_bulk_load_buffer fresh_engine example_buffer =
     (SAURON_OK,
      snd (sauron_set_u32 (snd (sauron_incr_u32 (snd (sauron_set_u32 fresh_engine 0x0A000001 100))
        0x0A000002 200)) 0x0A000003 (- 50)),
      \<lparr>lines_processed = 3, lines_skipped = 0, sets = 2, updates = 1, parse_errors = 0\<rparr>)"
proof -
  have l: "buffer_lines example_buffer = [''10.0.0.1,100'', ''10.0.0.2,+200'', ''10.0.0.3,-50'']"
    by (simp add: example_buffer_def)
  have b: "bulk_buffer_line ''10.0.0.1,100'' st = bulk_apply ''10.0.0.1,100'' (counted st)"
    "bulk_buffer_line ''10.0.0.2,+200'' st = bulk_apply ''10.0.0.2,+200'' (counted st)"
    "bulk_buffer_line ''10.0.0.3,-50'' st = bulk_apply ''10.0.0.3,-50'' (counted st)" for st
    by (rule bulk_buffer_line_short; simp add: BULK_LINE_MAX_def)+
  show ?thesis
    unfolding sauron_bulk_load_buffer_def l
    by (simp add: b bulk_apply_absolute[OF example_parse(1)] bulk_apply_relative[OF example_parse(2)]
        bulk_apply_absolute[OF example_parse(3)] counted_def absolute_set_def relative_increment_def)
qed

lemma example_scores:
  fixes E
  defines "E \<equiv> snd (sauron_set_u32 (snd (sauron_incr_u32 (snd (sauron_set_u32 fresh_engine 0x0A000001 100))
        0x0A000002 200)) 0x0A000003 (- 50))"
  shows "sauron_get_u32 E 0x0A000001 = 100" "sauron_get_u32 E 0x0A000002 = 200"
    "sauron_get_u32 E 0x0A000003 = - 50"
proof -
  let ?E1 = "snd (sauron_set_u32 fresh_engine 0x0A000001 100)"
  let ?E2 = "snd (sauron_incr_u32 ?E1 0x0A000002 200)"
  have h: "heap_ok ?E1" "heap_ok ?E2"
    by (simp_all add: heap_ok_fresh heap_ok_set heap_ok_incr)
  have "engine_inv fresh_engine" by (rule reachable_inv[OF reachable_fresh])
  then have i: "engine_inv E" unfolding E_def by (intro inv_set inv_incr)
  have s: "saturating_add 0 200 = 200"
    by (simp add: saturating_add_def Let_def SAURON_SCORE_MAX_def SAURON_SCORE_MIN_def)
  have c: "cell E a = (if a = 0x0A000003 then - 50 else if a = 0x0A000002 then 200
      else if a = 0x0A000001 then 100 else 0)" for a
    unfolding E_def
    by (simp add: cell_set_ok cell_incr_ok h heap_ok_fresh cell_fresh s)
  show "sauron_get_u32 E 0x0A000001 = 100" "sauron_get_u32 E 0x0A000002 = 200"
    "sauron_get_u32 E 0x0A000003 = - 50"
    by (simp_all add: get_eq_cell[OF i] c)
qed

lemma long_record_form:
  "long_record = record_line ''10'' ''0'' ''0'' ''1'' long_value"
  "digit_string long_value" "dec long_value = 5" "length long_record = 64"
  by (simp_all add: long_record_def long_value_def record_line_def dotted_def digit_string_def
      is_digit_def dec_def digit_val_def)

lemma long_record_parse:
  "parse_bulk_line long_record = Some (0x0A000001, 5, False)"
  "parse_bulk_line (take 63 long_record) = Some (0x0A000001, 0, False)"
  by (simp_all add: long_record_def long_value_def parse_bulk_line_def parse_bulk_value_def
      parse_sign_def is_digit_def digit_val_def)

lemma long_record_buffer:
  "sauron_bulk_load_buffer fresh_engine long_record =
     (SAURON_OK, snd (sauron_set_u32 fresh_engine 0x0A000001 0),
      \<lparr>lines_processed = 1, lines_skipped = 0, sets = 1, updates = 0, parse_errors = 0\<rparr>)"
proof -
  have l: "buffer_lines long_record = [long_record]"
    by (simp add: long_record_def long_value_def)
  have h: "hd (take 63 long_record) \<noteq> CHR ''#''"
    by (simp add: long_record_def long_value_def)
  have b: "bulk_buffer_line long_record st = bulk_apply (take 63 long_record) (counted st)" for st
    using h by (cases st) (simp add: bulk_buffer_line_def Let_def BULK_LINE_MAX_def long_record_form(4) counted_def)
  show ?thesis
    unfolding sauron_bulk_load_buffer_def l
    by (simp add: b bulk_apply_absolute[OF long_record_parse(2)] counted_def absolute_set_def)
qed

lemma long_record_file:
  "sauron_bulk_load fresh_engine (Some long_record) True =
     (SAURON_OK, snd (sauron_set_u32 fresh_engine 0x0A000001 5),
      Some \<lparr>lines_processed = 1, lines_skipped = 0, sets = 1, updates = 0, parse_errors = 0\<rparr>)"
proof -
  have l: "file_lines long_record = [long_record]"
    by (simp add: long_record_def long_value_def)
  have h: "hd long_record \<noteq> CHR ''#''" "hd long_record \<noteq> CHR 0x0A"
    by (simp_all add: long_record_def long_value_def)
  have b: "bulk_file_line long_record st = bulk_apply long_record (counted st)" for st
    using h by (cases st) (simp add: bulk_file_line_def Let_def long_record_form(4) counted_def)
  show ?thesis
    unfolding sauron_bulk_load_def
    by (simp add: l b bulk_apply_absolute[OF long_record_parse(1)] counted_def absolute_set_def)
qed

lemma get_set_fresh:
  "sauron_get_u32 (snd (sauron_set_u32 fresh_engine ip score)) ip = score"
proof -
  have "engine_inv (snd (sauron_set_u32 fresh_engine ip score))"
    by (intro inv_set reachable_inv[OF reachable_fresh])
  then show ?thesis
    by (simp add: get_eq_cell cell_set_ok heap_ok_fresh)
qed

subsection \<open>Records that end with a newline\<close>

lemma parse_value_digits_nl:
  assumes "digit_string n"
  shows "parse_value_loop (n @ [CHR 0x0A]) 0 = ([CHR 0x0A], min 32767 (int (dec n)))"
proof -
  from assms have "list_all is_digit n" by (simp add: digit_string_def)
  from parse_value_loop_digits[OF this, of 0 "[CHR 0x0A]"] show ?thesis
    using val_from_dec[of 0 n] by (simp add: dec_eq is_digit_def)
qed

lemma parse_bulk_value_digits_nl:
  assumes n: "digit_string n" and s: "parse_sign (skip_blanks p) = (rel, neg, n @ [CHR 0x0A])"
  shows "parse_bulk_value p =
           Some (word_of_int (if neg then - min 32767 (int (dec n)) else min 32767 (int (dec n))), rel)"
proof -
  from n obtain c cs where c: "n = c # cs" "is_digit c" by (rule digit_string_hd)
  have "parse_value_loop (c # cs @ [CHR 0x0A]) 0 = ([CHR 0x0A], min 32767 (int (dec n)))"
    using parse_value_digits_nl[OF n] c(1) by simp
  then show ?thesis
    using c by (simp add: parse_bulk_value_def s del: parse_value_loop.simps)
qed

lemma parse_sign_forms_nl:
  assumes "digit_string n"
  shows "parse_sign (skip_blanks (n @ r)) = (False, False, n @ r)"
    and "parse_sign (skip_blanks (CHR ''-'' # n @ r)) = (False, True, n @ r)"
    and "parse_sign (skip_blanks (CHR ''+'' # n @ r)) = (True, False, n @ r)"
    and "parse_sign (skip_blanks (CHR ''+'' # CHR ''-'' # n @ r)) = (True, True, n @ r)"
  using assms
  by (auto elim!: digit_string_hd simp: parse_sign_def is_digit_not_special)

lemma parse_record_nl:
  assumes o: "octet_string o1" "octet_string o2" "octet_string o3" "octet_string o4"
    and n: "digit_string n"
  shows "parse_bulk_line (record_line o1 o2 o3 o4 (n @ [CHR 0x0A])) =
           Some (ipv4 (dec o1) (dec o2) (dec o3) (dec o4), magnitude n, False)"
    and "parse_bulk_line (record_line o1 o2 o3 o4 (''-'' @ n @ [CHR 0x0A])) =
           Some (ipv4 (dec o1) (dec o2) (dec o3) (dec o4), - magnitude n, False)"
    and "parse_bulk_line (record_line o1 o2 o3 o4 (''+'' @ n @ [CHR 0x0A])) =
           Some (ipv4 (dec o1) (dec o2) (dec o3) (dec o4), magnitude n, True)"
    and "parse_bulk_line (record_line o1 o2 o3 o4 (''+-'' @ n @ [CHR 0x0A])) =
           Some (ipv4 (dec o1) (dec o2) (dec o3) (dec o4), - magnitude n, True)"
proof -
  from n have nn: "list_all (\<lambda>c. c \<noteq> CHR 0x00) (n @ [CHR 0x0A])"
    by (simp add: digit_string_def digits_no_nul)
  note s = parse_sign_forms_nl[OF n, of "[CHR 0x0A]"]
  show "parse_bulk_line (record_line o1 o2 o3 o4 (n @ [CHR 0x0A])) =
           Some (ipv4 (dec o1) (dec o2) (dec o3) (dec o4), magnitude n, False)"
    using parse_line_address[OF o nn] parse_bulk_value_digits_nl[OF n s(1)]
    by (simp add: record_line_def magnitude_def)
  show "parse_bulk_line (record_line o1 o2 o3 o4 (''-'' @ n @ [CHR 0x0A])) =
           Some (ipv4 (dec o1) (dec o2) (dec o3) (dec o4), - magnitude n, False)"
    using parse_line_address[OF o record_no_nul(2)[OF nn]] parse_bulk_value_digits_nl[OF n s(2)]
    by (simp add: record_line_def magnitude_def)
  show "parse_bulk_line (record_line o1 o2 o3 o4 (''+'' @ n @ [CHR 0x0A])) =
           Some (ipv4 (dec o1) (dec o2) (dec o3) (dec o4), magnitude n, True)"
    using parse_line_address[OF o record_no_nul(1)[OF nn]] parse_bulk_value_digits_nl[OF n s(3)]
    by (simp add: record_line_def magnitude_def)
  show "parse_bulk_line (record_line o1 o2 o3 o4 (''+-'' @ n @ [CHR 0x0A])) =
           Some (ipv4 (dec o1) (dec o2) (dec o3) (dec o4), - magnitude n, True)"
    using parse_line_address[OF o record_no_nul(1)[OF record_no_nul(2)[OF nn]]]
      parse_bulk_value_digits_nl[OF n s(4)]
    by (simp add: record_line_def magnitude_def)
qed

lemma record_line_hd_nl:
  assumes "octet_string o1"
  shows "hd (record_line o1 o2 o3 o4 v) \<noteq> CHR 0x0A"
proof -
  from assms have "digit_string o1" by (simp add: octet_string_def)
  then obtain c cs where "o1 = c # cs" "is_digit c" by (rule digit_string_hd)
  then show ?thesis
    by (simp add: record_line_def dotted_def is_digit_not_special)
qed

lemma bulk_file_line_record:
  assumes "line \<noteq> []" and "hd line \<noteq> CHR ''#''" and "hd line \<noteq> CHR 0x0A"
  shows "bulk_file_line line st = bulk_apply line (counted st)"
  using assms by (cases st) (simp add: bulk_file_line_def counted_def Let_def)

subsection \<open>Records that reach the parser whole\<close>

text \<open>
  For every record whose address is four octets of digits, each of value at most 255,
  and whose value is a non-empty string of digits \<open>N\<close>, with or without a final newline:
  the magnitude is \<open>N\<close> saturated at 32767; the loop body shared by the two loaders sets
  the score to the magnitude for \<open>N\<close> and to its negation for \<open>-N\<close>, counting the record
  in \<open>sets\<close>, and increments the score by the magnitude for \<open>+N\<close> and by its negation
  for \<open>+-N\<close>, counting the record in \<open>updates\<close>. \<^verbatim>\<open>sauron_bulk_load\<close> counts every
  record in \<open>lines_processed\<close> and hands it whole to that loop body;
  \<^verbatim>\<open>sauron_bulk_load_buffer\<close> does so for a record of fewer than 64 characters. The
  buffer of three records of the specification, loaded into a new engine, gives the
  scores 100, 200 and -50, with \<open>lines_processed = 3\<close>, \<open>sets = 2\<close> and \<open>updates = 1\<close>.
\<close>

theorem csv_record_grammar:
  assumes "octet_string o1" "octet_string o2" "octet_string o3" "octet_string o4"
    and "digit_string n"
  shows "sint (magnitude n) = min 32767 (int (dec n))
    \<and> bulk_apply (record_line o1 o2 o3 o4 n) st =
        absolute_set (ipv4 (dec o1) (dec o2) (dec o3) (dec o4)) (magnitude n) st
    \<and> bulk_apply (record_line o1 o2 o3 o4 (''-'' @ n)) st =
        absolute_set (ipv4 (dec o1) (dec o2) (dec o3) (dec o4)) (- magnitude n) st
    \<and> bulk_apply (record_line o1 o2 o3 o4 (''+'' @ n)) st =
        relative_increment (ipv4 (dec o1) (dec o2) (dec o3) (dec o4)) (magnitude n) st
    \<and> bulk_apply (record_line o1 o2 o3 o4 (''+-'' @ n)) st =
        relative_increment (ipv4 (dec o1) (dec o2) (dec o3) (dec o4)) (- magnitude n) st
    \<and> bulk_apply (record_line o1 o2 o3 o4 (n @ [CHR 0x0A])) st =
        absolute_set (ipv4 (dec o1) (dec o2) (dec o3) (dec o4)) (magnitude n) st
    \<and> bulk_apply (record_line o1 o2 o3 o4 (''-'' @ n @ [CHR 0x0A])) st =
        absolute_set (ipv4 (dec o1) (dec o2) (dec o3) (dec o4)) (- magnitude n) st
    \<and> bulk_apply (record_line o1 o2 o3 o4 (''+'' @ n @ [CHR 0x0A])) st =
        relative_increment (ipv4 (dec o1) (dec o2) (dec o3) (dec o4)) (magnitude n) st
    \<and> bulk_apply (record_line o1 o2 o3 o4 (''+-'' @ n @ [CHR 0x0A])) st =
        relative_increment (ipv4 (dec o1) (dec o2) (dec o3) (dec o4)) (- magnitude n) st
    \<and> (\<forall>v. bulk_file_line (record_line o1 o2 o3 o4 v) st =
          bulk_apply (record_line o1 o2 o3 o4 v) (counted st))
    \<and> (\<forall>v. length (record_line o1 o2 o3 o4 v) < BULK_LINE_MAX \<longrightarrow>
          bulk_buffer_line (record_line o1 o2 o3 o4 v) st =
            bulk_apply (record_line o1 o2 o3 o4 v) (counted st))
    \<and> fst (sauron_bulk_load_buffer fresh_engine example_buffer) = SAURON_OK
    \<and> sauron_get_u32 (fst (snd (sauron_bulk_load_buffer fresh_engine example_buffer))) 0x0A000001 = 100
    \<and> sauron_get_u32 (fst (snd (sauron_bulk_load_buffer fresh_engine example_buffer))) 0x0A000002 = 200
    \<and> sauron_get_u32 (fst (snd (sauron_bulk_load_buffer fresh_engine example_buffer))) 0x0A000003 = - 50
    \<and> lines_processed (snd (snd (sauron_bulk_load_buffer fresh_engine example_buffer))) = 3
    \<and> sets (snd (snd (sauron_bulk_load_buffer fresh_engine example_buffer))) = 2
    \<and> updates (snd (snd (sauron_bulk_load_buffer fresh_engine example_buffer))) = 1"
proof -
  note p = parse_record[OF assms]
  note q = parse_record_nl[OF assms]
  have f: "\<forall>v. bulk_file_line (record_line o1 o2 o3 o4 v) st =
      bulk_apply (record_line o1 o2 o3 o4 v) (counted st)"
    using record_line_hd[OF assms(1)] record_line_hd_nl[OF assms(1)]
    by (simp add: bulk_file_line_record)
  have b: "\<forall>v. length (record_line o1 o2 o3 o4 v) < BULK_LINE_MAX \<longrightarrow>
      bulk_buffer_line (record_line o1 o2 o3 o4 v) st =
        bulk_apply (record_line o1 o2 o3 o4 v) (counted st)"
    using record_line_hd[OF assms(1)] by (simp add: bulk_buffer_line_short)
  show ?thesis
    using b f bulk_apply_absolute[OF p(1), of st] bulk_apply_absolute[OF p(2), of st]
      bulk_apply_relative[OF p(3), of st] bulk_apply_relative[OF p(4), of st]
      bulk_apply_absolute[OF q(1), of st] bulk_apply_absolute[OF q(2), of st]
      bulk_apply_relative[OF q(3), of st] bulk_apply_relative[OF q(4), of st]
    by (simp add: sint_magnitude example_load example_scores)
qed

theorem csv_record_grammar_witness:
  "octet_string ''10'' \<and> octet_string ''0'' \<and> octet_string ''1'' \<and> digit_string ''40000''
   \<and> bulk_apply ''10.0.0.1,40000'' (fresh_engine, initial_stats) = absolute_set 0x0A000001 32767 (fresh_engine, initial_stats)
   \<and> bulk_apply ''10.0.0.1,-40000'' (fresh_engine, initial_stats) = absolute_set 0x0A000001 (- 32767) (fresh_engine, initial_stats)
   \<and> bulk_apply ''10.0.0.1,+40000'' (fresh_engine, initial_stats) = relative_increment 0x0A000001 32767 (fresh_engine, initial_stats)
   \<and> bulk_apply ''10.0.0.1,+-40000'' (fresh_engine, initial_stats) = relative_increment 0x0A000001 (- 32767) (fresh_engine, initial_stats)"
  using csv_record_grammar[of "''10''" "''0''" "''0''" "''1''" "''40000''" "(fresh_engine, initial_stats)"]
  by (simp add: octet_string_def digit_string_def is_digit_def dec_def digit_val_def
      record_line_def dotted_def ipv4_def magnitude_def)
subsection \<open>The archive\<close>

lemma le_word_step:
  fixes w :: "'a::len word"
  shows "ucast (ucast w :: 8 word) OR push_bit 8 (drop_bit 8 w) = w"
proof (rule bit_word_eqI)
  fix n
  assume "n < LENGTH('a)"
  then show "bit (ucast (ucast w :: 8 word) OR push_bit 8 (drop_bit 8 w)) n = bit w n"
    by (cases "n < 8") (auto simp: bit_simps)
qed

lemma ucast_byte_id:
  fixes w :: "'a::len word"
  assumes "\<And>n. bit w n \<Longrightarrow> n < 8"
  shows "ucast (ucast w :: 8 word) = w"
  by (rule bit_word_eqI) (auto simp: bit_simps dest: assms)

lemma le_word_16: "le_word (le16_bytes w) = w"
proof -
  have "ucast (ucast (drop_bit 8 w) :: 8 word) = drop_bit 8 w"
    by (rule ucast_byte_id) (auto simp: bit_simps dest: bit_imp_le_length)
  then have "le_word (le16_bytes w) = ucast (ucast w :: 8 word) OR push_bit 8 (drop_bit 8 w)"
    by (simp add: le16_bytes_def)
  then show ?thesis by (simp only: le_word_step)
qed

lemma le_word_32: "le_word (le32_bytes w) = w"
proof -
  have 3: "ucast (ucast (drop_bit 24 w) :: 8 word) = drop_bit 24 w"
    by (rule ucast_byte_id) (auto simp: bit_simps dest: bit_imp_le_length)
  have "le_word (le32_bytes w) =
      ucast (ucast w :: 8 word) OR push_bit 8
        (ucast (ucast (drop_bit 8 w) :: 8 word) OR push_bit 8
          (ucast (ucast (drop_bit 8 (drop_bit 8 w)) :: 8 word) OR push_bit 8
            (drop_bit 8 (drop_bit 8 (drop_bit 8 w)))))"
    by (simp add: le32_bytes_def 3)
  then show ?thesis by (simp only: le_word_step)
qed

lemma le_word_64: "le_word (le64_bytes w) = w"
proof -
  have 7: "ucast (ucast (drop_bit 56 w) :: 8 word) = drop_bit 56 w"
    by (rule ucast_byte_id) (auto simp: bit_simps dest: bit_imp_le_length)
  have "le_word (le64_bytes w) =
      (ucast (ucast w :: 8 word) OR push_bit 8 (ucast (ucast (drop_bit 8 w) :: 8 word) OR push_bit 8 (ucast (ucast (drop_bit 8 (drop_bit 8 w)) :: 8 word) OR push_bit 8 (ucast (ucast (drop_bit 8 (drop_bit 8 (drop_bit 8 w))) :: 8 word) OR push_bit 8 (ucast (ucast (drop_bit 8 (drop_bit 8 (drop_bit 8 (drop_bit 8 w)))) :: 8 word) OR push_bit 8 (ucast (ucast (drop_bit 8 (drop_bit 8 (drop_bit 8 (drop_bit 8 (drop_bit 8 w))))) :: 8 word) OR push_bit 8 (ucast (ucast (drop_bit 8 (drop_bit 8 (drop_bit 8 (drop_bit 8 (drop_bit 8 (drop_bit 8 w)))))) :: 8 word) OR push_bit 8 (drop_bit 8 (drop_bit 8 (drop_bit 8 (drop_bit 8 (drop_bit 8 (drop_bit 8 (drop_bit 8 w))))))))))))))"
    by (simp add: le64_bytes_def 7)
  then show ?thesis by (simp only: le_word_step)
qed

lemma save_hosts:
  "fold (save_host p b blk) [0..<j] (es, n) =
     (es @ host_entries p b blk j, n + of_nat (length (host_entries p b blk j)))"
  by (induction j) (simp_all add: save_host_def Let_def host_entries_def)

lemma set_host_entries:
  "set (host_entries p b blk 256) = {(mk_ip p b h, scores blk h) | h. scores blk h \<noteq> 0}"
proof (intro set_eqI iffI)
  fix e
  assume "e \<in> set (host_entries p b blk 256)"
  then show "e \<in> {(mk_ip p b h, scores blk h) | h. scores blk h \<noteq> 0}"
    by (auto simp: host_entries_def)
next
  fix e
  assume "e \<in> {(mk_ip p b h, scores blk h) | h. scores blk h \<noteq> 0}"
  then obtain h where h: "e = (mk_ip p b h, scores blk h)" "scores blk h \<noteq> 0" by auto
  have "unat h \<in> set (filter (\<lambda>h. scores blk (of_nat h) \<noteq> 0) [0..<256])"
    using h(2) by simp
  then have "(mk_ip p b (of_nat (unat h)), scores blk (of_nat (unat h))) \<in> set (host_entries p b blk 256)"
    unfolding host_entries_def set_map by (rule imageI)
  with h(1) show "e \<in> set (host_entries p b blk 256)" by simp
qed

lemma distinct_host_entries: "distinct (map fst (host_entries p b blk 256))"
proof -
  have "inj_on (\<lambda>h. mk_ip p b (of_nat h)) (set (filter (\<lambda>h. scores blk (of_nat h) \<noteq> 0) [0..<256]))"
    by (rule inj_onI) (auto simp: mk_ip_inj dest: of_nat_inj_8)
  then have "distinct (map (\<lambda>h. mk_ip p b (of_nat h)) (filter (\<lambda>h. scores blk (of_nat h) \<noteq> 0) [0..<256]))"
    by (simp add: distinct_map)
  then show ?thesis by (simp add: host_entries_def comp_def)
qed

lemma cells_in_insert:
  "cells_in ctx (insert (p, b) D) = cells_in ctx D \<union> cells_in ctx {(p, b)}"
  by (auto simp: cells_in_def)

lemma cells_in_block:
  "cells_in ctx {(p, b)} =
     (case block_at ctx p b of
        None \<Rightarrow> {}
      | Some blk \<Rightarrow> {(mk_ip p b h, scores blk h) | h. scores blk h \<noteq> 0})"
proof (cases "block_at ctx p b")
  case None
  then show ?thesis by (auto simp: cells_in_def cell_def)
next
  case (Some blk)
  have "cells_in ctx {(p, b)} = {(mk_ip p b h, scores blk h) | h. scores blk h \<noteq> 0}"
  proof (intro set_eqI iffI)
    fix e
    assume "e \<in> cells_in ctx {(p, b)}"
    then obtain ip where ip: "e = (ip, cell ctx ip)" "cell ctx ip \<noteq> 0" "ip_to_prefix16 ip = p"
        "ip_to_block_idx ip = b"
      by (auto simp: cells_in_def)
    have m: "ip = mk_ip p b (ip_to_host_idx ip)"
      using mk_ip_parts[of ip] ip(3,4) by simp
    have c: "cell ctx ip = scores blk (ip_to_host_idx ip)"
      using Some ip(3,4) by (simp add: cell_def)
    from ip(1,2) m c show "e \<in> {(mk_ip p b h, scores blk h) | h. scores blk h \<noteq> 0}"
      by auto
  next
    fix e
    assume "e \<in> {(mk_ip p b h, scores blk h) | h. scores blk h \<noteq> 0}"
    then obtain h where h: "e = (mk_ip p b h, scores blk h)" "scores blk h \<noteq> 0" by auto
    have "cell ctx (mk_ip p b h) = scores blk h"
      using Some by (simp add: cell_mk_ip)
    with h show "e \<in> cells_in ctx {(p, b)}"
      by (auto simp: cells_in_def prefix16_mk_ip block_idx_mk_ip)
  qed
  with Some show ?thesis by simp
qed

lemma cells_in_fst:
  "(ip, s) \<in> cells_in ctx D \<Longrightarrow> (ip_to_prefix16 ip, ip_to_block_idx ip) \<in> D"
  by (auto simp: cells_in_def)

lemma save_block_alt:
  "save_block ctx p b st =
     (case block_at ctx p b of
        None \<Rightarrow> st
      | Some blk \<Rightarrow>
          if active_count blk = 0 then st
          else (fst st @ host_entries p b blk 256, snd st + of_nat (length (host_entries p b blk 256))))"
  by (cases st) (simp add: save_block_def block_at_def save_hosts split: option.splits)

lemma save_block_step:
  assumes c: "counts_ok ctx" and n: "(p, b) \<notin> D" and q: "saved ctx D st"
  shows "saved ctx (insert (p, b) D) (save_block ctx p b st)"
proof (cases "block_at ctx p b")
  case None
  then have "cells_in ctx {(p, b)} = {}" by (simp add: cells_in_block)
  with q None show ?thesis
    by (simp add: saved_def save_block_alt cells_in_insert[of ctx p b D])
next
  case (Some blk)
  have new: "cells_in ctx {(p, b)} = set (host_entries p b blk 256)"
    using Some by (simp add: cells_in_block set_host_entries)
  show ?thesis
  proof (cases "active_count blk = 0")
    case True
    from c Some have "active_count blk = of_nat (nonzero_in blk)"
      by (simp add: counts_ok_def)
    with True have "nonzero_in blk = 0"
      using of_nat_eq_0_small[OF nonzero_in_le[of blk]] by simp
    then have "scores blk h = 0" for h by (simp add: nonzero_in_0_iff)
    then have "cells_in ctx {(p, b)} = {}"
      using Some by (simp add: cells_in_block)
    with q Some True show ?thesis
      by (simp add: saved_def save_block_alt cells_in_insert[of ctx p b D])
  next
    case False
    have disj: "set (map fst (fst st)) \<inter> set (map fst (host_entries p b blk 256)) = {}"
    proof (rule ccontr)
      assume "set (map fst (fst st)) \<inter> set (map fst (host_entries p b blk 256)) \<noteq> {}"
      then obtain ip s s' where a: "(ip, s) \<in> set (fst st)" "(ip, s') \<in> set (host_entries p b blk 256)"
        by auto
      from a(1) q have "(ip_to_prefix16 ip, ip_to_block_idx ip) \<in> D"
        by (auto simp: saved_def dest: cells_in_fst)
      moreover from a(2) new have "(ip_to_prefix16 ip, ip_to_block_idx ip) \<in> {(p, b)}"
        by (auto dest: cells_in_fst)
      ultimately show False using n by simp
    qed
    from q Some False disj show ?thesis
      by (simp add: saved_def save_block_alt cells_in_insert[of ctx p b D] new distinct_host_entries)
  qed
qed

lemma save_entries_saved:
  assumes "counts_ok ctx"
  shows "saved ctx UNIV (save_entries ctx)"
  unfolding save_entries_def
proof (rule for_blocks_rule[where Q="saved ctx"])
  show "saved ctx {} ([], 0)"
    by (simp add: saved_def cells_in_def)
next
  fix D p b st
  assume "(p, b) \<notin> D" and "saved ctx D st"
  with assms show "saved ctx (insert (p, b) D) (save_block ctx p b st)"
    by (rule save_block_step)
next
  fix D p and st :: "(32 word \<times> 16 word) list \<times> 64 word"
  assume n: "\<not> block_ptrs ctx p \<noteq> None" and q: "saved ctx D st"
  from n have "block_at ctx p b = None" for b by (simp add: block_at_def)
  then have "cell ctx ip = 0" if "ip_to_prefix16 ip = p" for ip
    using that by (simp add: cell_def)
  then have "cells_in ctx (D \<union> {p} \<times> UNIV) = cells_in ctx D"
    by (auto simp: cells_in_def)
  with q show "saved ctx (D \<union> {p} \<times> UNIV) st"
    by (simp add: saved_def)
qed

lemma save_entries_spec:
  assumes "counts_ok ctx"
  obtains entries where "save_entries ctx = (entries, of_nat (length entries))"
    and "distinct (map fst entries)"
    and "set entries = {(ip, cell ctx ip) | ip. cell ctx ip \<noteq> 0}"
proof -
  obtain entries n where e: "save_entries ctx = (entries, n)" by (cases "save_entries ctx")
  from save_entries_saved[OF assms] e
  have "n = of_nat (length entries)" "distinct (map fst entries)" "set entries = cells_in ctx UNIV"
    by (simp_all add: saved_def)
  with e that show thesis by (simp add: cells_in_def)
qed

lemma le_bytes_length [simp]:
  "length (le16_bytes s) = 2" "length (le32_bytes w) = 4" "length (le64_bytes n) = 8"
  "length SAURON_MAGIC = 4"
  by (simp_all add: le16_bytes_def le32_bytes_def le64_bytes_def SAURON_MAGIC_def)

lemma load_entries_encoded:
  "load_entries (length entries) (concat (map entry_bytes entries)) ctx =
     (SAURON_OK, fold apply_entry entries ctx)"
proof (induction entries arbitrary: ctx)
  case Nil
  then show ?case by simp
next
  case (Cons e es)
  have "le_word (take 4 (entry_bytes e @ concat (map entry_bytes es))) = fst e"
    by (simp add: entry_bytes_def le_word_32)
  moreover have "le_word (take 2 (drop 4 (entry_bytes e @ concat (map entry_bytes es)))) = snd e"
    by (simp add: entry_bytes_def le_word_16)
  moreover have "drop 6 (entry_bytes e @ concat (map entry_bytes es)) = concat (map entry_bytes es)"
    by (simp add: entry_bytes_def)
  moreover have "\<not> length (entry_bytes e @ concat (map entry_bytes es)) < 6"
    by (simp add: entry_bytes_def)
  ultimately show ?case
    using Cons.IH by (simp add: apply_entry_def Let_def)
qed

lemma heap_ok_apply_entry: "heap_ok ctx \<Longrightarrow> heap_ok (apply_entry e ctx)"
  by (simp add: apply_entry_def heap_ok_set)

lemma cell_apply_entries:
  assumes "distinct (map fst entries)" and "heap_ok ctx" and "\<forall>e \<in> set entries. snd e \<noteq> 0"
  shows "cell (fold apply_entry entries ctx) a =
           (case map_of entries a of None \<Rightarrow> cell ctx a | Some s \<Rightarrow> s)"
  using assms
proof (induction entries arbitrary: ctx)
  case Nil
  then show ?case by simp
next
  case (Cons e es)
  obtain ip s where e: "e = (ip, s)" by (cases e)
  from Cons.prems e have s: "s \<noteq> 0" and d: "distinct (map fst es)" and n: "ip \<notin> fst ` set es"
    and r: "\<forall>e \<in> set es. snd e \<noteq> 0"
    by auto
  let ?c = "apply_entry e ctx"
  have h: "heap_ok ?c" using Cons.prems(2) by (rule heap_ok_apply_entry)
  have c: "cell ?c a = (if a = ip then s else cell ctx a)"
    using s Cons.prems(2) by (simp add: apply_entry_def e cell_set_ok)
  have "cell (fold apply_entry (e # es) ctx) a =
      (case map_of es a of None \<Rightarrow> cell ?c a | Some s \<Rightarrow> s)"
    using Cons.IH[OF d h r] by simp
  also have "\<dots> = (case map_of (e # es) a of None \<Rightarrow> cell ctx a | Some s \<Rightarrow> s)"
  proof (cases "a = ip")
    case True
    with n have "map_of es a = None" by (simp add: map_of_eq_None_iff)
    with True c show ?thesis by (simp add: e)
  next
    case False
    with c show ?thesis by (simp add: e split: option.splits)
  qed
  finally show ?case .
qed

lemma archive_header:
  assumes "length a = 4" and "length b = 4" and "length c = 8"
  shows "take 4 (a @ b @ c @ r) = a" and "take 4 (drop 4 (a @ b @ c @ r)) = b"
    and "take 8 (drop 8 (a @ b @ c @ r)) = c" and "drop 16 (a @ b @ c @ r) = r"
    and "\<not> length (a @ b @ c @ r) < 8" and "\<not> length (a @ b @ c @ r) < 16"
  using assms by simp_all

lemma entries_bound:
  assumes "distinct (map fst (entries :: (32 word \<times> 16 word) list))"
  shows "length entries \<le> 2 ^ 32"
proof -
  have "length entries = card (set (map fst entries))"
    using distinct_card[OF assms] by simp
  also have "\<dots> \<le> card (UNIV :: 32 word set)"
    by (rule card_mono) simp_all
  finally show ?thesis by (simp add: card_word)
qed

lemma load_archive:
  assumes e: "save_entries ctx = (entries, of_nat (length entries))"
    and d: "distinct (map fst entries)" and f: "fs filename = Some (archive_bytes ctx)"
  shows "sauron_load ctx' filename fs = (SAURON_OK, fold apply_entry entries (clear_all_blocks ctx'))"
proof -
  let ?n = "of_nat (length entries) :: 64 word"
  let ?body = "concat (map entry_bytes entries)"
  have b: "archive_bytes ctx = SAURON_MAGIC @ le32_bytes SAURON_ARCHIVE_VERSION @ le64_bytes ?n @ ?body"
  proof -
    have "(\<lambda>(ip, score). le32_bytes ip @ le16_bytes score) = entry_bytes"
      by (auto simp: fun_eq_iff entry_bytes_def)
    then show ?thesis by (simp add: archive_bytes_def e)
  qed
  note h = archive_header[of SAURON_MAGIC "le32_bytes SAURON_ARCHIVE_VERSION" "le64_bytes ?n" ?body,
      OF le_bytes_length(4) le_bytes_length(2) le_bytes_length(3), folded b]
  have u: "unat ?n = length entries"
    using entries_bound[OF d] by (simp add: unat_of_nat)
  have m: "\<not> MAX_ARCHIVE_ENTRIES < ?n"
    using entries_bound[OF d] u by (simp add: MAX_ARCHIVE_ENTRIES_def word_less_nat_alt)
  have v: "SAURON_ARCHIVE_VERSION \<noteq> 0" by (simp add: SAURON_ARCHIVE_VERSION_def)
  show ?thesis
    by (simp add: sauron_load_def f h le_word_32 le_word_64 v m u load_entries_encoded)
qed

lemma inv_apply_entries: "engine_inv ctx \<Longrightarrow> engine_inv (fold apply_entry entries ctx)"
  by (rule fold_invariant[where P=engine_inv]) (simp_all add: apply_entry_def inv_set)

lemma heap_ok_clear_all_blocks: "heap_ok ctx \<Longrightarrow> heap_ok (clear_all_blocks ctx)"
  by (simp add: heap_ok_def clear_all_blocks_spec(3))

lemma cell_after_load:
  assumes d: "distinct (map fst entries)"
    and s: "set entries = {(ip, cell ctx ip) | ip. cell ctx ip \<noteq> 0}"
    and h: "heap_ok ctx'"
  shows "cell (fold apply_entry entries (clear_all_blocks ctx')) a = cell ctx a"
proof -
  from s have nz: "\<forall>e \<in> set entries. snd e \<noteq> 0" by auto
  have c: "cell (fold apply_entry entries (clear_all_blocks ctx')) a =
      (case map_of entries a of None \<Rightarrow> 0 | Some s \<Rightarrow> s)"
    using cell_apply_entries[OF d heap_ok_clear_all_blocks[OF h] nz, of a]
    by (simp split: option.splits)
  show ?thesis
  proof (cases "cell ctx a = 0")
    case True
    with s have "a \<notin> fst ` set entries" by auto
    then have "map_of entries a = None" by (simp add: map_of_eq_None_iff)
    with c True show ?thesis by simp
  next
    case False
    with s have "(a, cell ctx a) \<in> set entries" by auto
    with d have "map_of entries a = Some (cell ctx a)" by simp
    with c show ?thesis by simp
  qed
qed

lemma round_trip:
  assumes i: "engine_inv ctx" and f: "fs filename = Some (archive_bytes ctx)" and h: "heap_ok ctx'"
  shows "fst (sauron_load ctx' filename fs) = SAURON_OK"
    and "sauron_get_u32 (snd (sauron_load ctx' filename fs)) a = sauron_get_u32 ctx a"
    and "sauron_count (snd (sauron_load ctx' filename fs)) = sauron_count ctx"
proof -
  from i have "counts_ok ctx" by (simp add: engine_inv_def)
  then obtain entries where e: "save_entries ctx = (entries, of_nat (length entries))"
    and d: "distinct (map fst entries)"
    and s: "set entries = {(ip, cell ctx ip) | ip. cell ctx ip \<noteq> 0}"
    by (rule save_entries_spec)
  let ?c = "fold apply_entry entries (clear_all_blocks ctx')"
  have l: "sauron_load ctx' filename fs = (SAURON_OK, ?c)"
    using e d f by (rule load_archive)
  have i': "engine_inv ?c"
    by (rule inv_apply_entries[OF inv_clear_all_blocks])
  have c: "cell ?c a = cell ctx a" for a
    using d s h by (rule cell_after_load)
  show "fst (sauron_load ctx' filename fs) = SAURON_OK"
    by (simp add: l)
  show "sauron_get_u32 (snd (sauron_load ctx' filename fs)) a = sauron_get_u32 ctx a"
    by (simp add: l get_eq_cell[OF i] get_eq_cell[OF i'] c)
  have "unat (sauron_count ?c) = unat (sauron_count ctx)"
    by (simp add: count_eq_card[OF i] count_eq_card[OF i'] c)
  then show "sauron_count (snd (sauron_load ctx' filename fs)) = sauron_count ctx"
    by (simp add: l word_unat_eq_iff)
qed

lemma save_ok:
  assumes "sauron_save ctx filename pid io fs = (SAURON_OK, fs')"
  shows "fs' filename = Some (archive_bytes ctx)"
  using assms by (cases io) (auto simp: sauron_save_def)
section \<open>The claims\<close>

text \<open>
  C1. For every address \<open>a\<close>, every score \<open>x\<close> in \<open>[-32767, 32767]\<close> and every delta
  \<open>y\<close>: after \<open>set(a, x)\<close>, \<open>increment(a, y)\<close> returns, and a following \<open>get(a)\<close>
  returns, \<open>x + y\<close> clamped to \<open>[-32767, 32767]\<close>. The hypothesis on
  \<open>get_or_alloc_block\<close> says that the block of \<open>a\<close> exists or can be allocated.
\<close>

theorem set_then_incr_clamps:
  assumes alloc: "fst (get_or_alloc_block ctx a) \<noteq> None"
    and range: "- 32767 \<le> sint x" "sint x \<le> 32767"
  shows "case sauron_set_u32 ctx a x of (r0, ctx1) \<Rightarrow>
           case sauron_incr_u32 ctx1 a y of (r, ctx2) \<Rightarrow>
             sint r = clamp (sint x + sint y) \<and>
             sint (sauron_get_u32 ctx2 a) = clamp (sint x + sint y)"
proof -
  from alloc obtain blk c1 where g: "get_or_alloc_block ctx a = (Some blk, c1)"
    by (cases "get_or_alloc_block ctx a") auto
  define ctx1 where "ctx1 = snd (sauron_set_u32 ctx a x)"
  have c1: "cell ctx1 a = x" and b1: "bitmap_test ctx1 (ip_to_prefix24 a)"
    using set_u32_ok(2,3)[OF g] by (simp_all add: ctx1_def)
  have ctx1_eq: "ctx1 = store_score c1 a blk (scores blk (ip_to_host_idx a)) x"
    using g by (simp add: ctx1_def sauron_set_u32_def Let_def)
  have "fst (get_or_alloc_block ctx1 a) \<noteq> None"
    unfolding ctx1_eq using g by (rule goab_after_write)
  then obtain blk' c2 where g': "get_or_alloc_block ctx1 a = (Some blk', c2)"
    by (cases "get_or_alloc_block ctx1 a") auto
  have x_clamp: "clamp (sint x) = sint x"
    using range by (simp add: clamp_def)
  have res: "sint (fst (sauron_incr_u32 ctx1 a y)) = clamp (sint x + sint y)
      \<and> sint (sauron_get_u32 (snd (sauron_incr_u32 ctx1 a y)) a) = clamp (sint x + sint y)"
  proof (cases "y = 0")
    case True
    then show ?thesis
      using c1 b1 x_clamp by (simp add: sauron_incr_u32_def get_u32_eq_cell)
  next
    case False
    then show ?thesis
      using incr_u32_ok[OF g' False] c1
      by (simp add: get_u32_eq_cell sint_saturating_add)
  qed
  then show ?thesis
    by (auto simp: ctx1_def split: prod.splits)
qed

theorem set_then_incr_clamps_witness:
  "case sauron_set_u32 fresh_engine 0x0A000001 32000 of (r0, ctx1) \<Rightarrow>
     case sauron_incr_u32 ctx1 0x0A000001 1000 of (r, ctx2) \<Rightarrow>
       sint r = 32767 \<and> sint (sauron_get_u32 ctx2 0x0A000001) = 32767"
proof -
  have a: "fst (get_or_alloc_block fresh_engine 0x0A000001) \<noteq> None"
    by (rule goab_fresh) (simp_all add: fresh_engine_def no_oom_def)
  have b: "- 32767 \<le> sint (32000 :: 16 word)" "sint (32000 :: 16 word) \<le> 32767" by simp_all
  show ?thesis
    using set_then_incr_clamps[OF a b, of 1000] by (simp add: clamp_def)
qed

text \<open>
  C6, as stated: after \<open>set(a, 0)\<close>, \<open>get_checked(a)\<close> reports success with score 0.
  On a fresh engine it reports not-found (\<open>SAURON_ERR_INVALID\<close>) instead.
\<close>

theorem get_ex_zero_counterexample:
  "fst (sauron_get_ex (snd (sauron_set_u32 fresh_engine 0x0A000001 0)) 0x0A000001 7) = SAURON_ERR_INVALID"
proof -
  have a: "fst (get_or_alloc_block fresh_engine 0x0A000001) \<noteq> None"
    by (rule goab_fresh) (simp_all add: fresh_engine_def no_oom_def)
  then obtain blk c1 where g: "get_or_alloc_block fresh_engine 0x0A000001 = (Some blk, c1)"
    by (cases "get_or_alloc_block fresh_engine 0x0A000001") auto
  have "cell (snd (sauron_set_u32 fresh_engine 0x0A000001 0)) 0x0A000001 = 0"
    using set_u32_ok(2)[OF g, of 0 "0x0A000001"] by simp
  then show ?thesis
    by (auto simp: sauron_get_ex_def get_block_def Let_def cell_def block_at_def split: option.splits)
qed

text \<open>
  C6, amended. \<open>get_checked\<close> succeeds exactly when the score read by \<open>get\<close> is
  non-zero, and then returns that score; every address whose score is zero is reported
  not-found, whether it was set to zero or never written. In particular it reports
  not-found after \<open>set(a, 0)\<close> in every engine state.
\<close>

theorem get_ex_zero_is_not_found:
  "sauron_get_ex ctx ip s =
     (if sauron_get_u32 ctx ip = 0
      then (SAURON_ERR_INVALID, if get_block ctx ip = None then 0 else s)
      else (SAURON_OK, sauron_get_u32 ctx ip))
   \<and> fst (sauron_get_ex (snd (sauron_set_u32 ctx ip 0)) ip s) = SAURON_ERR_INVALID"
  by (simp add: get_ex_eq get_after_set_zero)

text \<open>
  C7. For every address and every engine state, \<open>decrement(a, INT16_MIN)\<close> is
  \<open>increment(a, INT16_MAX)\<close>: the delta is never negated, and when the block of \<open>a\<close>
  exists or can be allocated the result, which is also the score stored afterwards, is
  the old stored score plus 32767 clamped to \<open>[-32767, 32767]\<close>.
\<close>

theorem decr_int16_min_is_incr_max:
  "sauron_decr_u32 ctx ip INT16_MIN = sauron_incr_u32 ctx ip INT16_MAX
   \<and> (fst (get_or_alloc_block ctx ip) \<noteq> None \<longrightarrow>
        sint (fst (sauron_decr_u32 ctx ip INT16_MIN)) = clamp (sint (cell ctx ip) + 32767)
        \<and> cell (snd (sauron_decr_u32 ctx ip INT16_MIN)) ip = fst (sauron_decr_u32 ctx ip INT16_MIN))"
proof -
  have e: "sauron_decr_u32 ctx ip INT16_MIN = sauron_incr_u32 ctx ip INT16_MAX"
    by (simp add: sauron_decr_u32_def)
  have "sint (fst (sauron_incr_u32 ctx ip INT16_MAX)) = clamp (sint (cell ctx ip) + 32767)
        \<and> cell (snd (sauron_incr_u32 ctx ip INT16_MAX)) ip = fst (sauron_incr_u32 ctx ip INT16_MAX)"
    if "fst (get_or_alloc_block ctx ip) \<noteq> None"
  proof -
    from that obtain blk c1 where g: "get_or_alloc_block ctx ip = (Some blk, c1)"
      by (cases "get_or_alloc_block ctx ip") auto
    have nz: "INT16_MAX \<noteq> 0" by (simp add: INT16_MAX_def)
    show ?thesis
      using incr_u32_ok(1)[OF g nz] incr_u32_ok(2)[OF g nz, of ip]
      by (simp add: sint_saturating_add) (simp add: INT16_MAX_def)
  qed
  with e show ?thesis by simp
qed

theorem decr_int16_min_is_incr_max_witness:
  "sauron_decr_u32 fresh_engine 0x0A000001 INT16_MIN = sauron_incr_u32 fresh_engine 0x0A000001 INT16_MAX
   \<and> sint (fst (sauron_decr_u32 fresh_engine 0x0A000001 INT16_MIN)) = 32767"
proof -
  have a: "fst (get_or_alloc_block fresh_engine 0x0A000001) \<noteq> None"
    by (rule goab_fresh) (simp_all add: fresh_engine_def no_oom_def)
  have c: "cell fresh_engine 0x0A000001 = 0"
    by (simp add: cell_def block_at_def fresh_engine_def)
  note t = decr_int16_min_is_incr_max[of fresh_engine "0x0A000001"]
  from t have 1: "sauron_decr_u32 fresh_engine 0x0A000001 INT16_MIN
      = sauron_incr_u32 fresh_engine 0x0A000001 INT16_MAX" by (rule conjunct1)
  from t a have 2: "sint (fst (sauron_decr_u32 fresh_engine 0x0A000001 INT16_MIN))
      = clamp (sint (cell fresh_engine 0x0A000001) + 32767)" by blast
  from 2 have "sint (fst (sauron_decr_u32 fresh_engine 0x0A000001 INT16_MIN)) = 32767"
    unfolding c by (simp add: clamp_def)
  with 1 show ?thesis by (rule conjI)
qed

text \<open>
  C10. For every engine state and address, \<open>increment(a, 0)\<close> returns what \<open>get(a)\<close>
  returns and leaves the whole context as it is: no directory array, no block, no
  counter and no bitmap bit changes. The value returned is the stored score of \<open>a\<close>
  when the bitmap bit of its /24 is set and 0 otherwise; in every reachable state it is
  the stored score of \<open>a\<close>, which is 0 where \<open>a\<close> has no block; and after \<open>set(a, x)\<close>,
  when the block of \<open>a\<close> exists or can be allocated, it is \<open>x\<close>. By contrast
  \<open>set(a, 0)\<close> on an address without a block allocates the block when the allocator
  succeeds.
\<close>

theorem incr_zero_is_pure_read:
  "sauron_incr_u32 ctx ip 0 = (sauron_get_u32 ctx ip, ctx)
   \<and> fst (sauron_incr_u32 ctx ip 0) = (if bitmap_test ctx (ip_to_prefix24 ip) then cell ctx ip else 0)
   \<and> (reachable ctx \<longrightarrow> fst (sauron_incr_u32 ctx ip 0) = cell ctx ip)
   \<and> (fst (get_or_alloc_block ctx ip) \<noteq> None \<longrightarrow>
        sauron_incr_u32 (snd (sauron_set_u32 ctx ip x)) ip 0 = (x, snd (sauron_set_u32 ctx ip x)))
   \<and> (get_block ctx ip = None \<longrightarrow> fst (sauron_incr_u32 ctx ip 0) = 0)
   \<and> (block_at ctx (ip_to_prefix16 ip) (ip_to_block_idx ip) = None \<and> heap ctx 0 \<and> heap ctx 1 \<longrightarrow>
        block_at (snd (sauron_set_u32 ctx ip 0)) (ip_to_prefix16 ip) (ip_to_block_idx ip) \<noteq> None
        \<and> block_count (snd (sauron_set_u32 ctx ip 0)) = block_count ctx + 1)"
proof -
  have 1: "sauron_incr_u32 c ip 0 = (sauron_get_u32 c ip, c)" for c
    by (simp add: sauron_incr_u32_def)
  have 2: "get_block ctx ip = None \<Longrightarrow> sauron_get_u32 ctx ip = 0"
    by (simp add: sauron_get_u32_def)
  have 3: "block_at (snd (sauron_set_u32 ctx ip 0)) (ip_to_prefix16 ip) (ip_to_block_idx ip) \<noteq> None
        \<and> block_count (snd (sauron_set_u32 ctx ip 0)) = block_count ctx + 1"
    if "block_at ctx (ip_to_prefix16 ip) (ip_to_block_idx ip) = None" "heap ctx 0" "heap ctx 1"
    using that
    by (cases ctx ip rule: goab_cases)
      (simp_all add: sauron_set_u32_def goab_no_array goab_no_block Let_def block_at_store_score
        empty_block_def)
  have 4: "sauron_get_u32 ctx ip = (if bitmap_test ctx (ip_to_prefix24 ip) then cell ctx ip else 0)"
    by (rule get_u32_eq_cell)
  have 5: "sauron_get_u32 ctx ip = cell ctx ip" if "reachable ctx"
    by (rule get_eq_cell[OF reachable_inv[OF that]])
  have 6: "sauron_get_u32 (snd (sauron_set_u32 ctx ip x)) ip = x"
    if "fst (get_or_alloc_block ctx ip) \<noteq> None"
  proof -
    from that obtain blk c1 where g: "get_or_alloc_block ctx ip = (Some blk, c1)"
      by (cases "get_or_alloc_block ctx ip") auto
    show ?thesis
      using set_u32_ok(2)[OF g, of x ip] set_u32_ok(3)[OF g, of x "ip_to_prefix24 ip"]
      by (simp add: get_u32_eq_cell)
  qed
  from 1 2 3 4 5 6 show ?thesis by simp
qed

theorem incr_zero_is_pure_read_witness:
  "sauron_incr_u32 (snd (sauron_set_u32 fresh_engine 0x0A000001 100)) 0x0A000001 0
     = (100, snd (sauron_set_u32 fresh_engine 0x0A000001 100))
   \<and> sauron_incr_u32 fresh_engine 0x0A000001 0 = (0, fresh_engine)
   \<and> cell fresh_engine 0x0A000001 = 0
   \<and> block_count (snd (sauron_set_u32 fresh_engine 0x0A000001 0)) = 1"
proof -
  have b: "block_at fresh_engine (ip_to_prefix16 0x0A000001) (ip_to_block_idx 0x0A000001) = None"
    by (simp add: block_at_def fresh_engine_def)
  have g: "get_block fresh_engine 0x0A000001 = None"
    by (simp add: get_block_def bitmap_test_iff fresh_engine_def)
  have h: "heap fresh_engine 0" "heap fresh_engine 1" "block_count fresh_engine = 0"
    by (simp_all add: fresh_engine_def no_oom_def)
  have a: "fst (get_or_alloc_block fresh_engine 0x0A000001) \<noteq> None"
    by (rule goab_fresh) (rule h)+
  have c: "cell fresh_engine 0x0A000001 = 0"
    by (simp add: cell_def block_at_def fresh_engine_def)
  show ?thesis
    using incr_zero_is_pure_read[of fresh_engine "0x0A000001" 100] b g h a c reachable_fresh
    by (simp add: sauron_get_u32_def)
qed

text \<open>
  C4. After every sequence of operations on a newly created engine (set, increment,
  decrement, delete, batch increment, decay, clear, load, bulk load from a file or a
  buffer), \<open>count()\<close> is the number of addresses whose stored score is non-zero, which
  is also the number of addresses for which \<open>get\<close> returns a non-zero score, and the
  \<open>active_count\<close> of every block is the number of its non-zero cells.
\<close>

theorem count_is_number_of_nonzero_scores:
  assumes "reachable ctx"
  shows "unat (sauron_count ctx) = card {ip. cell ctx ip \<noteq> 0}
       \<and> unat (sauron_count ctx) = card {ip. sauron_get_u32 ctx ip \<noteq> 0}
       \<and> (\<forall>p b block. block_at ctx p b = Some block \<longrightarrow>
             unat (active_count block) = card {h. scores block h \<noteq> 0})"
proof -
  from assms have inv: "engine_inv ctx" by (rule reachable_inv)
  have "sauron_get_u32 ctx = cell ctx"
    using get_eq_cell[OF inv] by (simp add: fun_eq_iff)
  with count_eq_card[OF inv] active_eq_card[OF inv] show ?thesis by simp
qed

theorem count_is_number_of_nonzero_scores_witness:
  "unat (sauron_count (apply_op (Set 0x0A000001 100) fresh_engine)) = 1
   \<and> card {ip. sauron_get_u32 (apply_op (Set 0x0A000001 100) fresh_engine) ip \<noteq> 0} = 1"
proof -
  have r: "reachable (apply_op (Set 0x0A000001 100) fresh_engine)"
    by (rule reachable_step[OF reachable_fresh])
  have "sauron_count (apply_op (Set 0x0A000001 100) fresh_engine) = 1"
    by (simp add: sauron_count_def score_count_set_fresh)
  with count_is_number_of_nonzero_scores[OF r] show ?thesis by simp
qed

text \<open>
  C9. \<open>load\<close> returns the invalid-argument status and leaves the engine as it is when
  the header of the file has a bad magic, the version 0, a version above 1 (the magic
  and the version are the first 8 bytes), or an entry count above \<open>2\<^sup>3\<^sup>2\<close> (the header is
  16 bytes): the engine is not cleared and no entry is applied.
\<close>

theorem load_rejects_bad_header:
  assumes "fs filename = Some bytes"
    and "(8 \<le> length bytes \<and>
           (header_magic bytes \<noteq> SAURON_MAGIC \<or> header_version bytes = 0 \<or> 1 < header_version bytes))
         \<or> (16 \<le> length bytes \<and> 2 ^ 32 < header_entry_count bytes)"
  shows "sauron_load ctx filename fs = (SAURON_ERR_INVALID, ctx)"
  using assms
  by (auto simp: sauron_load_def header_magic_def header_version_def header_entry_count_def
      SAURON_ARCHIVE_VERSION_def MAX_ARCHIVE_ENTRIES_def)

theorem load_rejects_bad_header_witness:
  "sauron_load fresh_engine ''snapshot'' (one_file (Some bad_version_file))
     = (SAURON_ERR_INVALID, fresh_engine)"
proof -
  have a: "one_file (Some bad_version_file) ''snapshot'' = Some bad_version_file"
    by (simp add: one_file_def)
  have b: "(8 \<le> length bad_version_file \<and>
           (header_magic bad_version_file \<noteq> SAURON_MAGIC \<or> header_version bad_version_file = 0
            \<or> 1 < header_version bad_version_file))
         \<or> (16 \<le> length bad_version_file \<and> 2 ^ 32 < header_entry_count bad_version_file)"
    by (simp add: bad_version_file_def SAURON_MAGIC_def header_version_def)
  show ?thesis
    using a b by (rule load_rejects_bad_header)
qed

text \<open>
  C5, as stated: no operation ever stores \<open>-32768\<close>, \<open>set\<close> included. But
  \<open>set(a, -32768)\<close> on a new engine stores \<open>-32768\<close>, and \<open>get\<close> returns it.
\<close>

theorem set_stores_int16_min_counterexample:
  "reachable (apply_op (Set 0x0A000001 INT16_MIN) fresh_engine)
   \<and> sint (cell (apply_op (Set 0x0A000001 INT16_MIN) fresh_engine) 0x0A000001) = - 32768
   \<and> sint (sauron_get_u32 (apply_op (Set 0x0A000001 INT16_MIN) fresh_engine) 0x0A000001) = - 32768"
proof -
  have r: "reachable (apply_op (Set 0x0A000001 INT16_MIN) fresh_engine)"
    by (rule reachable_step[OF reachable_fresh])
  have a: "fst (get_or_alloc_block fresh_engine 0x0A000001) \<noteq> None"
    by (rule goab_fresh) (simp_all add: fresh_engine_def no_oom_def)
  have c: "cell (apply_op (Set 0x0A000001 INT16_MIN) fresh_engine) 0x0A000001 = INT16_MIN"
    using a by (simp add: cell_set)
  have g: "sauron_get_u32 (apply_op (Set 0x0A000001 INT16_MIN) fresh_engine) 0x0A000001 = INT16_MIN"
    using get_eq_cell[OF reachable_inv[OF r]] c by simp
  show ?thesis
    using r by (simp only: c g) (simp add: INT16_MIN_def)
qed

text \<open>
  C5, amended. After every sequence of operations in which no \<open>set\<close> is given the score
  \<open>-32768\<close> and no loaded archive has an entry record with that score, every stored score
  and every score returned by \<open>get\<close> lies in \<open>[-32767, 32767]\<close>: increment, decrement,
  delete, decay, clear and bulk load never produce \<open>-32768\<close>, and the saturating
  addition never returns it, whatever its operands.
\<close>

theorem scores_stay_in_range:
  assumes "reachable_by stores_no_min ctx"
  shows "- 32767 \<le> sint (cell ctx ip) \<and> sint (cell ctx ip) \<le> 32767
       \<and> - 32767 \<le> sint (sauron_get_u32 ctx ip) \<and> sint (sauron_get_u32 ctx ip) \<le> 32767
       \<and> - 32767 \<le> sint (saturating_add a b) \<and> sint (saturating_add a b) \<le> 32767"
proof -
  from assms have "no_min_cell ctx" by (rule reachable_no_min)
  then have c: "cell ctx ip \<noteq> INT16_MIN" by (simp add: no_min_cell_def)
  from assms have "engine_inv ctx" by (rule reachable_by_inv)
  then have g: "sauron_get_u32 ctx ip = cell ctx ip" by (rule get_eq_cell)
  show ?thesis
    using no_min_range[OF c] saturating_add_range[of a b] by (simp add: g)
qed

theorem scores_stay_in_range_witness:
  "sint (cell (apply_op (Decr 0x0A000001 1000) (apply_op (Set 0x0A000001 (- 32000)) fresh_engine))
           0x0A000001) = - 32767
   \<and> - 32767 \<le> sint (sauron_get_u32
           (apply_op (Decr 0x0A000001 1000) (apply_op (Set 0x0A000001 (- 32000)) fresh_engine))
           0x0A000001)"
proof -
  let ?c1 = "apply_op (Set 0x0A000001 (- 32000)) fresh_engine"
  let ?c2 = "apply_op (Decr 0x0A000001 1000) ?c1"
  have "reachable_by stores_no_min fresh_engine"
    by (rule reachable_by.created[OF create_no_oom])
  then have "reachable_by stores_no_min ?c1"
    by (rule reachable_by.step) (simp add: INT16_MIN_def)
  then have r: "reachable_by stores_no_min ?c2"
    by (rule reachable_by.step) simp
  have a: "fst (get_or_alloc_block fresh_engine 0x0A000001) \<noteq> None"
    by (rule goab_fresh) (simp_all add: fresh_engine_def no_oom_def)
  then obtain blk c where g: "get_or_alloc_block fresh_engine 0x0A000001 = (Some blk, c)"
    by (cases "get_or_alloc_block fresh_engine 0x0A000001") auto
  have c1: "cell ?c1 0x0A000001 = - 32000"
    using a by (simp add: cell_set)
  have a1: "fst (get_or_alloc_block ?c1 0x0A000001) \<noteq> None"
    using goab_after_write[OF g] g by (simp add: sauron_set_u32_def Let_def)
  have "cell ?c2 0x0A000001 = saturating_add (- 32000) (- 1000)"
    using a1 c1 by (simp add: sauron_decr_u32_def INT16_MIN_def cell_incr)
  then have "sint (cell ?c2 0x0A000001) = - 32767"
    by (simp add: sint_saturating_add clamp_def)
  with scores_stay_in_range[OF r, of "0x0A000001"] show ?thesis by simp
qed

text \<open>
  C2 at the deadzone \<open>INT16_MIN\<close>. After \<open>set(10.0.0.1, 100)\<close> on a new engine,
  \<open>decay(0.5, -32768)\<close> leaves the score 50, where the rule of the claim
  (\<open>|50| \<le> |-32768|\<close>) gives 0: the negation of the deadzone wraps to \<open>-32768\<close> and no
  score is inside the deadzone any more. For every other deadzone the code follows the
  claim (lemma \<open>decay_follows_spec\<close>).
\<close>

theorem decay_deadzone_int16_min_keeps_score:
  "sauron_get_u32
     (snd (sauron_decay (apply_op (Set 0x0A000001 100) fresh_engine) f32_half INT16_MIN))
     0x0A000001 = 50
   \<and> spec_decay_value f32_half INT16_MIN 100 = 0"
proof -
  let ?c = "apply_op (Set 0x0A000001 100) fresh_engine"
  have r: "reachable ?c" by (rule reachable_step[OF reachable_fresh])
  then have inv: "engine_inv ?c" by (rule reachable_inv)
  have ok: "\<not> f32_lt_zero f32_half" "\<not> f32_gt_one f32_half"
    by (simp_all add: f32_half_def)
  have a: "fst (get_or_alloc_block fresh_engine 0x0A000001) \<noteq> None"
    by (rule goab_fresh) (simp_all add: fresh_engine_def no_oom_def)
  have c: "cell ?c 0x0A000001 = 100"
    using a by (simp add: cell_set)
  have "sauron_get_u32 (snd (sauron_decay ?c f32_half INT16_MIN)) 0x0A000001
      = cell (snd (sauron_decay ?c f32_half INT16_MIN)) 0x0A000001"
    by (rule get_eq_cell[OF inv_decay[OF inv]])
  also have "\<dots> = decay_value f32_half (abs_deadzone INT16_MIN) 100"
    using cell_decay[OF inv ok, of INT16_MIN "0x0A000001"] c by simp
  also have "\<dots> = 50" by (rule decay_value_half_100)
  finally have 1: "sauron_get_u32 (snd (sauron_decay ?c f32_half INT16_MIN)) 0x0A000001 = 50" .
  have 2: "spec_decay_value f32_half INT16_MIN 100 = 0"
    by (simp add: spec_decay_value_def f32_half_def INT16_MIN_def f32_round_def Let_def)
  from 1 2 show ?thesis by (rule conjI)
qed

text \<open>
  Claim C8: for every record \<open>ip,value\<close>, bare digits \<open>N\<close> set the score to \<open>+N\<close> and
  the record counts in \<open>sets\<close>. \<^verbatim>\<open>sauron_bulk_load_buffer\<close> copies each line into a
  buffer of \<open>BULK_LINE_MAX = 64\<close> bytes and cuts it to 63 characters first. The record
  \<open>long_record\<close> has the address \<open>10.0.0.1\<close> and the value 5 written with 55 digits, 64
  characters in all. Loaded from a buffer into a new engine it counts as a set and
  leaves the score 0, because the last digit is cut; loaded from a file with
  \<^verbatim>\<open>sauron_bulk_load\<close>, which reads whole lines, the same record sets the score 5.
\<close>

theorem bulk_load_buffer_cuts_long_record:
  "long_record = record_line ''10'' ''0'' ''0'' ''1'' long_value \<and> digit_string long_value
   \<and> sint (magnitude long_value) = 5
   \<and> sauron_get_u32 (fst (snd (sauron_bulk_load_buffer fresh_engine long_record))) 0x0A000001 = 0
   \<and> sets (snd (snd (sauron_bulk_load_buffer fresh_engine long_record))) = 1
   \<and> sauron_get_u32 (fst (snd (sauron_bulk_load fresh_engine (Some long_record) True))) 0x0A000001 = 5"
  by (simp add: long_record_form(1)[symmetric] long_record_form(2,3) sint_magnitude
      long_record_buffer long_record_file get_set_fresh)

text \<open>
  Claim C3: for every engine state \<open>E\<close> reachable by a sequence of operations and every
  file name, if \<^verbatim>\<open>sauron_save\<close> succeeds, a subsequent \<^verbatim>\<open>sauron_load\<close> of that file
  into an engine \<open>E'\<close> whose allocations succeed returns \<open>SAURON_OK\<close>, and afterwards
  every address has the score it has in \<open>E\<close> and the count is that of \<open>E\<close>. A \<open>set\<close>
  whose allocation fails changes nothing and \<^verbatim>\<open>sauron_load\<close> does not notice it, hence
  the hypothesis on \<open>E'\<close>.
\<close>

theorem save_load_round_trip:
  assumes "reachable E" and "sauron_save E filename pid io fs = (SAURON_OK, fs')"
    and "heap_ok E'"
  shows "fst (sauron_load E' filename fs') = SAURON_OK
    \<and> (\<forall>a. sauron_get_u32 (snd (sauron_load E' filename fs')) a = sauron_get_u32 E a)
    \<and> sauron_count (snd (sauron_load E' filename fs')) = sauron_count E"
  using round_trip[where fs=fs' and filename=filename, OF reachable_inv[OF assms(1)] save_ok[OF assms(2)] assms(3)]
  by simp

theorem save_load_round_trip_witness:
  "fst (sauron_load fresh_engine ''snapshot''
         (snd (sauron_save (apply_op (Set 0x0A000001 100) fresh_engine) ''snapshot'' 1 IO_OK (one_file None))))
     = SAURON_OK
   \<and> sauron_get_u32 (snd (sauron_load fresh_engine ''snapshot''
         (snd (sauron_save (apply_op (Set 0x0A000001 100) fresh_engine) ''snapshot'' 1 IO_OK (one_file None)))))
       0x0A000001 = 100
   \<and> sauron_count (snd (sauron_load fresh_engine ''snapshot''
         (snd (sauron_save (apply_op (Set 0x0A000001 100) fresh_engine) ''snapshot'' 1 IO_OK (one_file None)))))
       = 1"
proof -
  let ?E = "apply_op (Set 0x0A000001 100) fresh_engine"
  have r: "reachable ?E" by (rule reachable_step[OF reachable_fresh])
  have s: "sauron_save ?E ''snapshot'' 1 IO_OK (one_file None) =
      (SAURON_OK, snd (sauron_save ?E ''snapshot'' 1 IO_OK (one_file None)))"
    by (simp add: sauron_save_def)
  have g: "sauron_get_u32 ?E 0x0A000001 = 100" by (simp add: get_set_fresh)
  have c: "sauron_count ?E = 1" by (simp add: sauron_count_def score_count_set_fresh)
  from save_load_round_trip[OF r s heap_ok_fresh] g c show ?thesis by simp
qed
end
